theory Spec2Isabelle
  imports Complex_Main "HOL-Library.Word" "HOL-Library.Log_Nat"
begin

section \<open>Arithmetic of the C program\<close>

subsection \<open>Bytes and doubles\<close>

text \<open>
  \<^verbatim>\<open>uint8_t\<close> is an 8-bit word. A \<^verbatim>\<open>double\<close> is modelled by the rational number it
  denotes: every finite binary64 value is a rational. Each arithmetic operation computes
  the exact rational result and rounds it to the nearest value with a 53-bit significand,
  ties to even, with the exponent of the last place never below \<open>-1074\<close> (gradual
  underflow). This is IEEE 754 binary64 arithmetic with every operation rounded on its
  own (no excess precision, no fused multiply-add), as the compile line in the header of
  \<^verbatim>\<open>image_pthread.c\<close> gives on x86-64, for results of finite magnitude; infinities and
  NaN are outside the model.
\<close>

type_synonym u8 = "8 word"
type_synonym double = rat

definition pow2 :: "int \<Rightarrow> rat" where
  "pow2 e = (if 0 \<le> e then 2 ^ nat e else 1 / 2 ^ nat (- e))"

text \<open>The binary exponent of a positive rational: \<open>pow2 (ilog2 q) \<le> q < pow2 (ilog2 q + 1)\<close>.\<close>

definition ilog2 :: "rat \<Rightarrow> int" where
  "ilog2 q = (case quotient_of q of (a, b) \<Rightarrow>
     (let d = bitlen a - bitlen b in if pow2 d \<le> q then d else d - 1))"

definition round_even :: "rat \<Rightarrow> int" where
  "round_even q = (let f = \<lfloor>q\<rfloor>; r = q - of_int f in
     if r < 1 / 2 then f
     else if 1 / 2 < r then f + 1
     else if even f then f else f + 1)"

definition to_double :: "rat \<Rightarrow> double" where
  "to_double q = (if q = 0 then 0 else
     (let e = max (ilog2 \<bar>q\<bar> - 52) (- 1074) in
        sgn q * of_int (round_even (\<bar>q\<bar> / pow2 e)) * pow2 e))"

definition double_add :: "double \<Rightarrow> double \<Rightarrow> double" where
  "double_add a b = to_double (a + b)"

definition double_mul :: "double \<Rightarrow> double \<Rightarrow> double" where
  "double_mul a b = to_double (a * b)"

definition double_div :: "double \<Rightarrow> double \<Rightarrow> double" where
  "double_div a b = to_double (a / b)"

text \<open>
  The byte operand of \<^verbatim>\<open>algorithm[i][j] * srcImage->data[...]\<close> is promoted to
  \<^verbatim>\<open>int\<close> and converted to \<^verbatim>\<open>double\<close>; both steps are exact.
\<close>

definition double_of_u8 :: "u8 \<Rightarrow> double" where
  "double_of_u8 b = of_nat (unat b)"

text \<open>
  \<^verbatim>\<open>uint8_t result = <double expression>\<close> discards the fraction (towards zero). When
  the integral part does not fit into 8 bits ISO C leaves the conversion undefined; the
  compiled program on x86-64 converts to a 32-bit integer and keeps its low 8 bits. This
  is the narrowing without clamping that section 4.2 of the specification documents, and
  the model does the same: the integral part modulo 256. (The sums of the kernels of the
  table stay below \<open>9 * 255\<close> in magnitude, far inside the 32-bit range.)
\<close>

definition c_trunc :: "double \<Rightarrow> int" where
  "c_trunc v = (if 0 \<le> v then \<lfloor>v\<rfloor> else \<lceil>v\<rceil>)"

definition u8_of_double :: "double \<Rightarrow> u8" where
  "u8_of_double v = word_of_int (c_trunc v)"

section \<open>Data model\<close>

text \<open>
  Modelled from the spec: \<^verbatim>\<open>image.h\<close> (the types \<^verbatim>\<open>Image\<close>, \<^verbatim>\<open>Matrix\<close> and
  \<^verbatim>\<open>enum KernelTypes\<close>, and the macro \<^verbatim>\<open>Index\<close>) is not part of the sources at hand.
  The raster of section 3 has a width, a height, a channel count and a byte buffer; the
  field names are those that \<^verbatim>\<open>image_pthread.c\<close> uses.
\<close>

record Image =
  data :: "u8 list"
  width :: int
  height :: int
  bpp :: int

text \<open>
  Modelled from the spec: the macro \<^verbatim>\<open>Index\<close> of \<^verbatim>\<open>image.h\<close>. Section 3 puts the byte
  of pixel \<open>(x, y)\<close>, channel \<open>c\<close>, at \<open>((y * width + x) * channels) + c\<close>.
\<close>

definition Index :: "int \<Rightarrow> int \<Rightarrow> int \<Rightarrow> int \<Rightarrow> int \<Rightarrow> int" where
  "Index x y w bit' b = ((y * w + x) * b) + bit'"

text \<open>
  Modelled from the spec: \<^verbatim>\<open>Matrix\<close> of \<^verbatim>\<open>image.h\<close>, a 3 by 3 matrix of floating-point
  weights (section 3), here three rows of three doubles.
\<close>

type_synonym Row = "double \<times> double \<times> double"
type_synonym Matrix = "Row \<times> Row \<times> Row"

text \<open>
  Modelled from the spec: \<^verbatim>\<open>enum KernelTypes\<close> of \<^verbatim>\<open>image.h\<close>. The constants are the
  ones \<^verbatim>\<open>GetKernelType\<close> returns, in the order in which the comments of the table
  \<^verbatim>\<open>algorithms\<close> label its rows.
\<close>

datatype KernelTypes = EDGE | SHARPEN | BLUR | GAUSE_BLUR | EMBOSS | IDENTITY

section \<open>Kernel table\<close>

text \<open>\<^verbatim>\<open>algorithms[]\<close>, indexed by the kernel type. \<^verbatim>\<open>1/9.0\<close> is a double division.\<close>

fun algorithms :: "KernelTypes \<Rightarrow> Matrix" where
  "algorithms EDGE = ((0, - 1, 0), (- 1, 4, - 1), (0, - 1, 0))"
| "algorithms SHARPEN = ((0, - 1, 0), (- 1, 5, - 1), (0, - 1, 0))"
| "algorithms BLUR =
     ((double_div 1 9, double_div 1 9, double_div 1 9),
      (double_div 1 9, double_div 1 9, double_div 1 9),
      (double_div 1 9, double_div 1 9, double_div 1 9))"
| "algorithms GAUSE_BLUR =
     ((double_div 1 16, double_div 1 8, double_div 1 16),
      (double_div 1 8, double_div 1 4, double_div 1 8),
      (double_div 1 16, double_div 1 8, double_div 1 16))"
| "algorithms EMBOSS = ((- 2, - 1, 0), (- 1, 1, 1), (0, 1, 2))"
| "algorithms IDENTITY = ((0, 0, 0), (0, 1, 0), (0, 0, 0))"

text \<open>\<^verbatim>\<open>GetKernelType\<close>: a chain of \<^verbatim>\<open>strcmp\<close> tests with a default.\<close>

definition GetKernelType :: "string \<Rightarrow> KernelTypes" where
  "GetKernelType type =
     (if type = ''edge'' then EDGE
      else if type = ''sharpen'' then SHARPEN
      else if type = ''blur'' then BLUR
      else if type = ''gauss'' then GAUSE_BLUR
      else if type = ''emboss'' then EMBOSS
      else IDENTITY)"

section \<open>Pixel convolution\<close>

text \<open>
  The byte that \<^verbatim>\<open>srcImage->data[Index(i, j, srcImage->width, bit, srcImage->bpp)]\<close>
  reads. Coordinates and offsets are \<^verbatim>\<open>int\<close> in the code and unbounded integers here;
  they agree as long as \<open>width * height * bpp\<close> fits into an \<^verbatim>\<open>int\<close>. Inside a raster
  the offset lies within the buffer (lemma \<open>Index_in_raster\<close>); outside, C leaves the
  access undefined.
\<close>

definition pixel :: "Image \<Rightarrow> int \<Rightarrow> int \<Rightarrow> int \<Rightarrow> u8" where
  "pixel srcImage i j bit' =
     data srcImage ! nat (Index i j (width srcImage) bit' (bpp srcImage))"

text \<open>
  The right-hand side of the initialisation of \<^verbatim>\<open>result\<close> in \<^verbatim>\<open>getPixelValue\<close>, a value
  of type \<^verbatim>\<open>double\<close>: the four clamped neighbour coordinates, then nine products added
  from left to right.
\<close>

fun getPixelSum :: "Image \<Rightarrow> int \<Rightarrow> int \<Rightarrow> int \<Rightarrow> Matrix \<Rightarrow> double" where
  "getPixelSum srcImage x y bit' ((a00, a01, a02), (a10, a11, a12), (a20, a21, a22)) =
     (let mx = (if x - 1 < 0 then 0 else x - 1);
          my = (if y - 1 < 0 then 0 else y - 1);
          px = (if x + 1 \<ge> width srcImage then width srcImage - 1 else x + 1);
          py = (if y + 1 \<ge> height srcImage then height srcImage - 1 else y + 1);
          byte = (\<lambda>i j. double_of_u8 (pixel srcImage i j bit'))
      in double_add (double_add (double_add (double_add (double_add (double_add
           (double_add (double_add
             (double_mul a00 (byte mx my))
             (double_mul a01 (byte x my)))
             (double_mul a02 (byte px my)))
             (double_mul a10 (byte mx y)))
             (double_mul a11 (byte x y)))
             (double_mul a12 (byte px y)))
             (double_mul a20 (byte mx py)))
             (double_mul a21 (byte x py)))
             (double_mul a22 (byte px py)))"

definition getPixelValue :: "Image \<Rightarrow> int \<Rightarrow> int \<Rightarrow> int \<Rightarrow> Matrix \<Rightarrow> u8" where
  "getPixelValue srcImage x y bit' algorithm =
     u8_of_double (getPixelSum srcImage x y bit' algorithm)"

section \<open>Convolution engine\<close>

subsection \<open>Workers\<close>

text \<open>
  \<^verbatim>\<open>ThreadArg\<close>. The field \<^verbatim>\<open>destImage\<close> points to the one destination raster that all
  workers write; in the model that raster is the state passed from write to write, so
  the record keeps the other four fields.
\<close>

record ThreadArg =
  srcImage :: Image
  algorithm :: Matrix
  start_row :: int
  end_row :: int

text \<open>
  The assignment in the innermost loop body of \<^verbatim>\<open>thread_convolute\<close>. The offset is
  computed from the width and the channel count of the source, as in the code.
\<close>

definition store_pixel :: "ThreadArg \<Rightarrow> int \<Rightarrow> int \<Rightarrow> int \<Rightarrow> Image \<Rightarrow> Image" where
  "store_pixel ta row pix bit' dest =
     dest\<lparr>data := (data dest)
       [nat (Index pix row (width (srcImage ta)) bit' (bpp (srcImage ta))) :=
          getPixelValue (srcImage ta) pix row bit' (algorithm ta)]\<rparr>"

text \<open>The three nested \<^verbatim>\<open>for\<close> loops of \<^verbatim>\<open>thread_convolute\<close>, innermost first.\<close>

function bit_loop :: "ThreadArg \<Rightarrow> int \<Rightarrow> int \<Rightarrow> int \<Rightarrow> Image \<Rightarrow> Image" where
  "bit_loop ta row pix bit' dest =
     (if bit' < bpp (srcImage ta)
      then bit_loop ta row pix (bit' + 1) (store_pixel ta row pix bit' dest)
      else dest)"
  by pat_completeness auto
termination
  by (relation "measure (\<lambda>(ta, row, pix, bit', dest). nat (bpp (srcImage ta) - bit'))") auto

function pix_loop :: "ThreadArg \<Rightarrow> int \<Rightarrow> int \<Rightarrow> Image \<Rightarrow> Image" where
  "pix_loop ta row pix dest =
     (if pix < width (srcImage ta)
      then pix_loop ta row (pix + 1) (bit_loop ta row pix 0 dest)
      else dest)"
  by pat_completeness auto
termination
  by (relation "measure (\<lambda>(ta, row, pix, dest). nat (width (srcImage ta) - pix))") auto

function row_loop :: "ThreadArg \<Rightarrow> int \<Rightarrow> Image \<Rightarrow> Image" where
  "row_loop ta row dest =
     (if row < end_row ta
      then row_loop ta (row + 1) (pix_loop ta row 0 dest)
      else dest)"
  by pat_completeness auto
termination
  by (relation "measure (\<lambda>(ta, row, dest). nat (end_row ta - row))") auto

definition thread_convolute :: "ThreadArg \<Rightarrow> Image \<Rightarrow> Image" where
  "thread_convolute ta dest = row_loop ta (start_row ta) dest"

subsection \<open>Partition into bands\<close>

text \<open>C's \<^verbatim>\<open>/\<close> and \<^verbatim>\<open>%\<close> on \<^verbatim>\<open>int\<close>: the quotient is rounded towards zero.\<close>

definition c_div :: "int \<Rightarrow> int \<Rightarrow> int" where
  "c_div a b = (if (a < 0) = (b < 0) then \<bar>a\<bar> div \<bar>b\<bar> else - (\<bar>a\<bar> div \<bar>b\<bar>))"

definition c_mod :: "int \<Rightarrow> int \<Rightarrow> int" where
  "c_mod a b = a - b * c_div a b"

text \<open>
  The first loop of \<^verbatim>\<open>convolute\<close> fills \<^verbatim>\<open>args[i]\<close> for \<open>i = 0, ..., num_threads - 1\<close>.
  The bands do not depend on what the workers write, so the model first collects the
  arguments and then lets the workers run. \<^verbatim>\<open>num_threads\<close> is the constant 4 in the
  code, with the comment ``change if you want more/less''; it is a parameter here.
\<close>

function args_loop :: "int \<Rightarrow> Image \<Rightarrow> Matrix \<Rightarrow> int \<Rightarrow> int \<Rightarrow> ThreadArg list" where
  "args_loop num_threads src alg i current_start =
     (if i < num_threads
      then (let rows_per_thread = c_div (height src) num_threads;
                remainder = c_mod (height src) num_threads;
                extra = (if i < remainder then 1 else 0);
                ta = \<lparr>srcImage = src, algorithm = alg,
                       start_row = current_start,
                       end_row = current_start + rows_per_thread + extra\<rparr>
            in ta # args_loop num_threads src alg (i + 1) (end_row ta))
      else [])"
  by pat_completeness auto
termination
  by (relation "measure (\<lambda>(num_threads, src, alg, i, current_start). nat (num_threads - i))")
    auto

text \<open>The array \<^verbatim>\<open>args\<close> once the first loop has run: the loop starts at \<open>i = 0\<close>, row 0.\<close>

definition args :: "int \<Rightarrow> Image \<Rightarrow> Matrix \<Rightarrow> ThreadArg list" where
  "args num_threads src alg = args_loop num_threads src alg 0 0"

subsection \<open>Starting and joining the workers\<close>

text \<open>
  \<^verbatim>\<open>pthread_create\<close> either starts the worker or fails. The code discards its status.
  A worker that was started has finished when \<^verbatim>\<open>pthread_join\<close> returns; a worker
  that was not started never runs, and the model takes the join on it to return at once
  (POSIX leaves that call undefined). Every byte a worker writes is a function of the
  source raster and of the position alone, and no worker reads the destination, so the
  destination after the joins is the same for every schedule (lemma \<open>every_schedule\<close>);
  the model runs each started worker to completion in the order of creation. Source and
  destination are separate buffers, as in \<^verbatim>\<open>main\<close>.
\<close>

definition pthread_create :: "bool \<Rightarrow> ThreadArg \<Rightarrow> Image \<Rightarrow> Image" where
  "pthread_create ok ta dest = (if ok then thread_convolute ta dest else dest)"

fun run_workers :: "(int \<Rightarrow> bool) \<Rightarrow> int \<Rightarrow> ThreadArg list \<Rightarrow> Image \<Rightarrow> Image" where
  "run_workers started i [] dest = dest"
| "run_workers started i (ta # tas) dest =
     run_workers started (i + 1) tas (pthread_create (started i) ta dest)"

text \<open>
  \<^verbatim>\<open>convolute\<close> with the worker count and the outcome of each \<^verbatim>\<open>pthread_create\<close> as
  parameters: \<open>started i\<close> tells whether worker \<open>i\<close> was started.
\<close>

definition convolute_started ::
  "int \<Rightarrow> (int \<Rightarrow> bool) \<Rightarrow> Image \<Rightarrow> Image \<Rightarrow> Matrix \<Rightarrow> Image" where
  "convolute_started num_threads started src dest alg =
     run_workers started 0 (args num_threads src alg) dest"

text \<open>The engine when every worker starts.\<close>

definition convolute_n :: "int \<Rightarrow> Image \<Rightarrow> Image \<Rightarrow> Matrix \<Rightarrow> Image" where
  "convolute_n num_threads src dest alg =
     convolute_started num_threads (\<lambda>i. True) src dest alg"

text \<open>\<^verbatim>\<open>convolute\<close> as compiled: \<^verbatim>\<open>num_threads = 4\<close>.\<close>

definition convolute :: "Image \<Rightarrow> Image \<Rightarrow> Matrix \<Rightarrow> Image" where
  "convolute src dest alg = convolute_n 4 src dest alg"

subsection \<open>Schedules\<close>

text \<open>
  The workers run concurrently. Each worker performs its stores in the order of its
  loops, and a run of the engine interleaves the stores of the workers in some way. The
  positions that the loops of a worker visit, in order:
\<close>

definition worker_stores :: "ThreadArg \<Rightarrow> (int \<times> int \<times> int) list" where
  "worker_stores ta =
     concat (map (\<lambda>row.
       concat (map (\<lambda>pix.
         map (\<lambda>bit'. (row, pix, bit')) [0..bpp (srcImage ta) - 1])
         [0..width (srcImage ta) - 1]))
       [start_row ta..end_row ta - 1])"

text \<open>A step of the engine: a worker and the position it stores to.\<close>

fun do_store :: "ThreadArg \<times> int \<times> int \<times> int \<Rightarrow> Image \<Rightarrow> Image" where
  "do_store (ta, row, pix, bit') dest = store_pixel ta row pix bit' dest"

definition worker_steps :: "ThreadArg \<Rightarrow> (ThreadArg \<times> int \<times> int \<times> int) list" where
  "worker_steps ta = map (Pair ta) (worker_stores ta)"

text \<open>Executing a sequence of steps, one store after the other.\<close>

definition run_schedule :: "(ThreadArg \<times> int \<times> int \<times> int) list \<Rightarrow> Image \<Rightarrow> Image" where
  "run_schedule sched dest = fold do_store sched dest"

text \<open>
  \<open>interleaving xss ys\<close>: the sequence \<open>ys\<close> takes, step by step, the next element of
  one of the sequences \<open>xss\<close>, until all of them are used up.
\<close>

inductive interleaving :: "'a list list \<Rightarrow> 'a list \<Rightarrow> bool" where
  finished: "concat xss = [] \<Longrightarrow> interleaving xss []"
| step: "k < length xss \<Longrightarrow> xss ! k = x # xs \<Longrightarrow> interleaving (xss[k := xs]) ys
    \<Longrightarrow> interleaving xss (x # ys)"

section \<open>What the specification says\<close>

subsection \<open>Rasters\<close>

text \<open>
  A raster (section 3): positive width, height and channel count, and a buffer of
  exactly \<open>width * height * channels\<close> bytes.
\<close>

definition raster :: "Image \<Rightarrow> bool" where
  "raster img \<longleftrightarrow> 0 < width img \<and> 0 < height img \<and> 0 < bpp img
     \<and> int (length (data img)) = width img * height img * bpp img"

text \<open>The channel, the column and the row of the byte at offset \<open>i\<close> of a raster.\<close>

definition chan_of :: "Image \<Rightarrow> nat \<Rightarrow> int" where
  "chan_of img i = int i mod bpp img"

definition col_of :: "Image \<Rightarrow> nat \<Rightarrow> int" where
  "col_of img i = int i div bpp img mod width img"

definition row_of :: "Image \<Rightarrow> nat \<Rightarrow> int" where
  "row_of img i = int i div bpp img div width img"

text \<open>
  Two notions for the proofs: a step of a worker of the engine stays inside the raster,
  and a step stores to the byte at offset \<open>i\<close>.
\<close>

definition store_ok :: "Image \<Rightarrow> Matrix \<Rightarrow> ThreadArg \<times> int \<times> int \<times> int \<Rightarrow> bool" where
  "store_ok src alg s = (case s of (ta, row, pix, c) \<Rightarrow>
     srcImage ta = src \<and> algorithm ta = alg \<and> 0 \<le> row
     \<and> 0 \<le> pix \<and> pix < width src \<and> 0 \<le> c \<and> c < bpp src)"

definition store_at :: "Image \<Rightarrow> nat \<Rightarrow> ThreadArg \<times> int \<times> int \<times> int \<Rightarrow> bool" where
  "store_at src i s = (case s of (ta, row, pix, c) \<Rightarrow>
     row = row_of src i \<and> pix = col_of src i \<and> c = chan_of src i)"

subsection \<open>Pixel convolution with edge replication (section 4.2)\<close>

text \<open>
  A neighbour coordinate below 0 becomes 0, one at or above the extent \<open>n\<close> becomes
  \<open>n - 1\<close>.
\<close>

definition clamp_coord :: "int \<Rightarrow> int \<Rightarrow> int" where
  "clamp_coord n v = (if v < 0 then 0 else if n \<le> v then n - 1 else v)"

text \<open>The nine kernel positions \<open>(dx, dy)\<close> with their weights, row by row.\<close>

fun kernel_positions :: "Matrix \<Rightarrow> (double \<times> int \<times> int) list" where
  "kernel_positions ((a00, a01, a02), (a10, a11, a12), (a20, a21, a22)) =
     [(a00, - 1, - 1), (a01, 0, - 1), (a02, 1, - 1),
      (a10, - 1, 0), (a11, 0, 0), (a12, 1, 0),
      (a20, - 1, 1), (a21, 0, 1), (a22, 1, 1)]"

text \<open>Kernel weight times the source byte at the clamped neighbour coordinate.\<close>

fun weighted_neighbour :: "Image \<Rightarrow> int \<Rightarrow> int \<Rightarrow> int \<Rightarrow> double \<times> int \<times> int \<Rightarrow> double" where
  "weighted_neighbour src x y c (wt, dx, dy) =
     double_mul wt (double_of_u8
       (pixel src (clamp_coord (width src) (x + dx)) (clamp_coord (height src) (y + dy)) c))"

text \<open>The sum of a list of doubles, accumulated from the first to the last.\<close>

fun double_sum :: "double list \<Rightarrow> double" where
  "double_sum [] = 0"
| "double_sum (t # ts) = foldl double_add t ts"

definition neighbourhood_sum :: "Image \<Rightarrow> int \<Rightarrow> int \<Rightarrow> int \<Rightarrow> Matrix \<Rightarrow> double" where
  "neighbourhood_sum src x y c k =
     double_sum (map (weighted_neighbour src x y c) (kernel_positions k))"

subsection \<open>The destination raster, pixel by pixel (section 2)\<close>

text \<open>
  Every byte of the destination is the pixel convolution of the source at the byte's
  own column, row and channel.
\<close>

definition convolve_direct :: "Image \<Rightarrow> Matrix \<Rightarrow> u8 list" where
  "convolve_direct src k =
     map (\<lambda>i. getPixelValue src (col_of src i) (row_of src i) (chan_of src i) k)
       [0 ..< nat (width src * height src * bpp src)]"

subsection \<open>Bands (section 4.3)\<close>

text \<open>
  With \<open>base = h div n\<close> and \<open>extra = h mod n\<close>, the first \<open>extra\<close> bands have \<open>base + 1\<close>
  rows and the others \<open>base\<close> rows, so band \<open>k\<close> starts at row \<open>k * base + min k extra\<close>.
\<close>

definition band_start :: "int \<Rightarrow> int \<Rightarrow> int \<Rightarrow> int" where
  "band_start h n k = k * (h div n) + min k (h mod n)"

definition band_size :: "int \<Rightarrow> int \<Rightarrow> int \<Rightarrow> int" where
  "band_size h n k = h div n + (if k < h mod n then 1 else 0)"

subsection \<open>The rasters of the concrete scenarios (section 8)\<close>

definition raster_3x3 :: Image where
  "raster_3x3 = \<lparr>data = [0, 0, 0, 0, 255, 0, 0, 0, 0], width = 3, height = 3, bpp = 1\<rparr>"

text \<open>The 4 by 4 single-channel raster whose every byte is \<open>v\<close>.\<close>

definition uniform_4x4 :: "u8 \<Rightarrow> Image" where
  "uniform_4x4 v = \<lparr>data = replicate 16 v, width = 4, height = 4, bpp = 1\<rparr>"

text \<open>The nine products of a kernel with one and the same byte, summed in kernel order.\<close>

definition uniform_sum :: "Matrix \<Rightarrow> u8 \<Rightarrow> double" where
  "uniform_sum k v =
     double_sum (map (\<lambda>(wt, dx, dy). double_mul wt (double_of_u8 v)) (kernel_positions k))"

text \<open>
  The blur kernel with its first weight one unit in the last place larger: the nine
  weights, all doubles, then sum to 1 exactly.
\<close>

definition normalised_blur :: Matrix where
  "normalised_blur =
     ((250199979298361 / 2251799813685248, 2001599834386887 / 18014398509481984,
       2001599834386887 / 18014398509481984),
      (2001599834386887 / 18014398509481984, 2001599834386887 / 18014398509481984,
       2001599834386887 / 18014398509481984),
      (2001599834386887 / 18014398509481984, 2001599834386887 / 18014398509481984,
       2001599834386887 / 18014398509481984))"

section \<open>Properties of the arithmetic\<close>

text \<open>
  The exponent that the rounding uses is the binary exponent of its argument, and
  integers below \<open>2 ^ 53\<close> in magnitude are doubles: rounding leaves them as they are.
\<close>

lemma pow2_powi: "pow2 e = 2 powi e"
  by (simp add: pow2_def power_int_def inverse_eq_divide power_one_over)

lemma pow2_pos: "0 < pow2 e"
  by (simp add: pow2_powi)

lemma pow2_mono: "a \<le> b \<Longrightarrow> pow2 a \<le> pow2 b"
  by (simp add: pow2_powi power_int_increasing)

lemma ilog2_lower:
  assumes "0 < q"
  shows "pow2 (ilog2 q) \<le> q"
proof -
  obtain a b where ab: "quotient_of q = (a, b)" by (cases "quotient_of q")
  have b: "0 < b" using ab quotient_of_denom_pos by blast
  have q: "q = of_int a / of_int b" using ab quotient_of_div by blast
  have a: "0 < a" using assms b q by (simp add: zero_less_divide_iff)
  let ?d = "bitlen a - bitlen b"
  show ?thesis
  proof (cases "pow2 ?d \<le> q")
    case True
    then show ?thesis by (simp add: ilog2_def ab)
  next
    case False
    have la: "(2::rat) powi (bitlen a - 1) \<le> of_int a"
    proof -
      have "1 \<le> bitlen a" using a by (simp add: bitlen_alt_def)
      moreover have "(2::int) ^ nat (bitlen a - 1) \<le> a" using bitlen_bounds [OF a] by simp
      then have "(of_int ((2::int) ^ nat (bitlen a - 1)) :: rat) \<le> of_int a"
        by (simp only: of_int_le_iff)
      ultimately show ?thesis by (simp add: power_int_def)
    qed
    have ub: "(of_int b :: rat) \<le> 2 powi bitlen b"
    proof -
      have "b < 2 ^ nat (bitlen b)" using bitlen_bounds [OF b] by simp
      then have "(of_int b :: rat) < of_int ((2::int) ^ nat (bitlen b))"
        by (simp only: of_int_less_iff)
      then show ?thesis using bitlen_nonneg [of b] by (simp add: power_int_def)
    qed
    have "pow2 (?d - 1) = 2 powi (bitlen a - 1) / 2 powi bitlen b"
      by (simp add: pow2_powi power_int_diff)
    also have "\<dots> \<le> of_int a / 2 powi bitlen b"
      using la by (simp add: divide_right_mono)
    also have "\<dots> \<le> of_int a / of_int b"
      using ub a b by (simp add: divide_left_mono)
    finally have "pow2 (?d - 1) \<le> q" using q by simp
    then show ?thesis using False by (simp add: ilog2_def ab)
  qed
qed

lemma ilog2_upper:
  assumes "0 < q"
  shows "q < pow2 (ilog2 q + 1)"
proof -
  obtain a b where ab: "quotient_of q = (a, b)" by (cases "quotient_of q")
  have b: "0 < b" using ab quotient_of_denom_pos by blast
  have q: "q = of_int a / of_int b" using ab quotient_of_div by blast
  have a: "0 < a" using assms b q by (simp add: zero_less_divide_iff)
  let ?d = "bitlen a - bitlen b"
  show ?thesis
  proof (cases "pow2 ?d \<le> q")
    case False
    then show ?thesis by (simp add: ilog2_def ab)
  next
    case True
    have ua: "(of_int a :: rat) < 2 powi bitlen a"
    proof -
      have "a < 2 ^ nat (bitlen a)" using bitlen_bounds [OF a] by simp
      then have "(of_int a :: rat) < of_int ((2::int) ^ nat (bitlen a))"
        by (simp only: of_int_less_iff)
      then show ?thesis using bitlen_nonneg [of a] by (simp add: power_int_def)
    qed
    have lb: "(2::rat) powi (bitlen b - 1) \<le> of_int b"
    proof -
      have "1 \<le> bitlen b" using b by (simp add: bitlen_alt_def)
      moreover have "(2::int) ^ nat (bitlen b - 1) \<le> b" using bitlen_bounds [OF b] by simp
      then have "(of_int ((2::int) ^ nat (bitlen b - 1)) :: rat) \<le> of_int b"
        by (simp only: of_int_le_iff)
      ultimately show ?thesis by (simp add: power_int_def)
    qed
    have "of_int a / of_int b < 2 powi bitlen a / (of_int b :: rat)"
      using ua b by (simp add: divide_strict_right_mono)
    also have "\<dots> \<le> 2 powi bitlen a / 2 powi (bitlen b - 1)"
      using lb b by (intro divide_left_mono) (simp_all add: zero_less_mult_iff)
    also have "\<dots> = pow2 (?d + 1)"
    proof -
      have "?d + 1 = bitlen a - (bitlen b - 1)" by simp
      moreover have "(2::rat) powi (bitlen a - (bitlen b - 1)) =
          2 powi bitlen a / 2 powi (bitlen b - 1)"
        by (rule power_int_diff) simp
      ultimately show ?thesis by (simp only: pow2_powi)
    qed
    finally have "q < pow2 (?d + 1)" using q by simp
    then show ?thesis using True by (simp add: ilog2_def ab)
  qed
qed

lemma round_even_of_int: "round_even (of_int k) = k"
  by (simp add: round_even_def)

lemma to_double_of_int:
  assumes "\<bar>m\<bar> < 2 ^ 53"
  shows "to_double (of_int m) = of_int m"
proof (cases "m = 0")
  case True
  then show ?thesis by (simp add: to_double_def)
next
  case False
  let ?q = "of_int m :: rat"
  let ?e = "max (ilog2 \<bar>?q\<bar> - 52) (- 1074)"
  have "pow2 (ilog2 \<bar>?q\<bar>) \<le> \<bar>?q\<bar>" using False by (intro ilog2_lower) simp
  also have "\<bar>?q\<bar> < pow2 53"
  proof -
    have "(of_int \<bar>m\<bar> :: rat) < of_int (2 ^ 53)" using assms by (simp only: of_int_less_iff)
    then show ?thesis by (simp add: pow2_def)
  qed
  finally have "ilog2 \<bar>?q\<bar> < 53" using pow2_mono [of 53 "ilog2 \<bar>?q\<bar>"] by force
  then have e: "?e \<le> 0" by simp
  have pe: "pow2 ?e = 1 / 2 ^ nat (- ?e)"
    using e by (cases "?e = 0") (simp_all add: pow2_def)
  have "\<bar>?q\<bar> / pow2 ?e = of_int (\<bar>m\<bar> * 2 ^ nat (- ?e))"
    by (simp add: pe)
  then have "round_even (\<bar>?q\<bar> / pow2 ?e) = \<bar>m\<bar> * 2 ^ nat (- ?e)"
    by (simp only: round_even_of_int)
  then have "to_double ?q = sgn ?q * of_int (\<bar>m\<bar> * 2 ^ nat (- ?e)) * pow2 ?e"
    using False by (simp add: to_double_def Let_def)
  also have "\<dots> = sgn ?q * \<bar>?q\<bar>" by (simp add: pe)
  also have "\<dots> = ?q" by (simp add: sgn_mult_abs)
  finally show ?thesis .
qed

lemma to_double_numeral:
  "numeral n < (9007199254740992::int) \<Longrightarrow> to_double (numeral n) = numeral n"
  using to_double_of_int [of "numeral n"] by simp

lemma to_double_neg_numeral:
  "numeral n < (9007199254740992::int) \<Longrightarrow> to_double (- numeral n) = - numeral n"
  using to_double_of_int [of "- numeral n"] by simp

lemma to_double_0: "to_double 0 = 0"
  by (simp add: to_double_def)

lemma to_double_1: "to_double 1 = 1"
  using to_double_of_int [of 1] by simp

lemma c_trunc_numeral: "c_trunc (numeral n) = numeral n"
  by (simp add: c_trunc_def)

lemma blur_weight: "double_div 1 9 = 2001599834386887 / 18014398509481984"
  by code_simp

lemma gauss_weights:
  "double_div 1 16 = 1 / 16" "double_div 1 8 = 1 / 8" "double_div 1 4 = 1 / 4"
  by code_simp+

section \<open>Properties of the workers\<close>

declare bit_loop.simps [simp del] pix_loop.simps [simp del] row_loop.simps [simp del]
  args_loop.simps [simp del]

subsection \<open>Offsets and the three loops\<close>

lemma Index_decode:
  assumes "0 \<le> c" "c < b"
  shows "Index x y w c b div b = y * w + x" and "Index x y w c b mod b = c"
  using assms by (simp_all add: Index_def)

lemma Index_eq_iff:
  assumes "0 \<le> c" "c < b"
  shows "k = Index x y w c b \<longleftrightarrow> k div b = y * w + x \<and> k mod b = c"
proof
  assume "k = Index x y w c b"
  then show "k div b = y * w + x \<and> k mod b = c" using assms by (simp add: Index_decode)
next
  assume h: "k div b = y * w + x \<and> k mod b = c"
  have "k = k div b * b + k mod b" by simp
  then show "k = Index x y w c b" using h by (simp add: Index_def)
qed

lemma pos_decode:
  assumes "0 \<le> x" "x < w"
  shows "(y * w + x) div w = y" and "(y * w + x) mod w = (x::int)"
  using assms by simp_all

lemma pos_eq_iff:
  assumes "0 \<le> x" "x < w"
  shows "p = y * w + x \<longleftrightarrow> p div w = y \<and> p mod w = (x::int)"
proof
  assume "p = y * w + x"
  then show "p div w = y \<and> p mod w = x" using assms by simp
next
  assume h: "p div w = y \<and> p mod w = x"
  have "p = p div w * w + p mod w" by simp
  then show "p = y * w + x" using h by simp
qed

lemma store_pixel_frame:
  "store_pixel ta row pix c dest = dest\<lparr>data := data (store_pixel ta row pix c dest)\<rparr>"
  by (simp add: store_pixel_def)

lemma store_pixel_length:
  "length (data (store_pixel ta row pix c dest)) = length (data dest)"
  by (simp add: store_pixel_def)

lemma store_pixel_nth:
  assumes "i < length (data dest)" "0 \<le> c" "c < bpp (srcImage ta)"
    "0 \<le> row * width (srcImage ta) + pix"
  shows "data (store_pixel ta row pix c dest) ! i =
    (if int i div bpp (srcImage ta) = row * width (srcImage ta) + pix
        \<and> int i mod bpp (srcImage ta) = c
     then getPixelValue (srcImage ta) pix row c (algorithm ta)
     else data dest ! i)"
proof -
  let ?k = "Index pix row (width (srcImage ta)) c (bpp (srcImage ta))"
  have nn: "0 \<le> ?k" using assms by (simp add: Index_def)
  have "i = nat ?k \<longleftrightarrow> int i = ?k" using nn by auto
  also have "\<dots> \<longleftrightarrow> int i div bpp (srcImage ta) = row * width (srcImage ta) + pix
        \<and> int i mod bpp (srcImage ta) = c"
    using assms by (intro Index_eq_iff) auto
  finally show ?thesis using assms(1) by (auto simp: store_pixel_def nth_list_update)
qed

lemma bit_loop_length:
  "length (data (bit_loop ta row pix c dest)) = length (data dest)"
proof (induction ta row pix c dest rule: bit_loop.induct)
  case (1 ta row pix c dest)
  then show ?case
    by (subst bit_loop.simps) (simp add: store_pixel_length)
qed

lemma bit_loop_nth:
  assumes "i < length (data dest)" "0 \<le> c" "0 \<le> row * width (srcImage ta) + pix"
    "0 < bpp (srcImage ta)"
  shows "data (bit_loop ta row pix c dest) ! i =
    (if int i div bpp (srcImage ta) = row * width (srcImage ta) + pix
        \<and> c \<le> int i mod bpp (srcImage ta)
     then getPixelValue (srcImage ta) pix row (int i mod bpp (srcImage ta)) (algorithm ta)
     else data dest ! i)"
  using assms
proof (induction ta row pix c dest rule: bit_loop.induct)
  case (1 ta row pix c dest)
  let ?b = "bpp (srcImage ta)"
  show ?case
  proof (cases "c < ?b")
    case True
    have lt: "i < length (data (store_pixel ta row pix c dest))"
      using "1.prems" by (simp add: store_pixel_length)
    have "data (bit_loop ta row pix c dest) ! i =
        data (bit_loop ta row pix (c + 1) (store_pixel ta row pix c dest)) ! i"
      using True by (subst bit_loop.simps) simp
    also have "\<dots> = (if int i div ?b = row * width (srcImage ta) + pix \<and> c + 1 \<le> int i mod ?b
       then getPixelValue (srcImage ta) pix row (int i mod ?b) (algorithm ta)
       else data (store_pixel ta row pix c dest) ! i)"
      using "1.IH" [OF True lt] "1.prems" by simp
    finally show ?thesis
      using "1.prems" True by (auto simp: store_pixel_nth)
  next
    case False
    have "int i mod ?b < ?b" using "1.prems" by simp
    then have "\<not> c \<le> int i mod ?b" using False by simp
    then show ?thesis using False
      by (subst bit_loop.simps) simp
  qed
qed

lemma bit_loop_frame:
  "bit_loop ta row pix c dest = dest\<lparr>data := data (bit_loop ta row pix c dest)\<rparr>"
proof (induction ta row pix c dest rule: bit_loop.induct)
  case (1 ta row pix c dest)
  show ?case
  proof (cases "c < bpp (srcImage ta)")
    case True
    have "bit_loop ta row pix c dest = bit_loop ta row pix (c + 1) (store_pixel ta row pix c dest)"
      using True by (subst bit_loop.simps) simp
    then show ?thesis
      using "1.IH" [OF True] store_pixel_frame [of ta row pix c dest]
      by (metis Image.surjective Image.update_convs(1))
  next
    case False
    then show ?thesis by (subst (1 2) bit_loop.simps) simp
  qed
qed

lemma pix_loop_length:
  "length (data (pix_loop ta row pix dest)) = length (data dest)"
proof (induction ta row pix dest rule: pix_loop.induct)
  case (1 ta row pix dest)
  then show ?case
    by (subst pix_loop.simps) (simp add: bit_loop_length)
qed

lemma pix_loop_frame:
  "pix_loop ta row pix dest = dest\<lparr>data := data (pix_loop ta row pix dest)\<rparr>"
proof (induction ta row pix dest rule: pix_loop.induct)
  case (1 ta row pix dest)
  show ?case
  proof (cases "pix < width (srcImage ta)")
    case True
    have "pix_loop ta row pix dest = pix_loop ta row (pix + 1) (bit_loop ta row pix 0 dest)"
      using True by (subst pix_loop.simps) simp
    then show ?thesis
      using "1.IH" [OF True] bit_loop_frame [of ta row pix 0 dest]
      by (metis Image.surjective Image.update_convs(1))
  next
    case False
    then show ?thesis by (subst (1 2) pix_loop.simps) simp
  qed
qed

lemma pix_loop_nth:
  assumes "i < length (data dest)" "0 \<le> pix" "0 \<le> row"
    "0 < bpp (srcImage ta)" "0 < width (srcImage ta)"
  shows "data (pix_loop ta row pix dest) ! i =
    (if int i div bpp (srcImage ta) div width (srcImage ta) = row
        \<and> pix \<le> int i div bpp (srcImage ta) mod width (srcImage ta)
     then getPixelValue (srcImage ta) (int i div bpp (srcImage ta) mod width (srcImage ta)) row
            (int i mod bpp (srcImage ta)) (algorithm ta)
     else data dest ! i)"
  using assms
proof (induction ta row pix dest rule: pix_loop.induct)
  case (1 ta row pix dest)
  let ?b = "bpp (srcImage ta)" and ?w = "width (srcImage ta)"
  let ?p = "int i div ?b"
  show ?case
  proof (cases "pix < ?w")
    case True
    have lt: "i < length (data (bit_loop ta row pix 0 dest))"
      using "1.prems" by (simp add: bit_loop_length)
    have base: "0 \<le> row * ?w + pix" using "1.prems" by simp
    have m: "0 \<le> int i mod ?b" using "1.prems" by simp
    have eq: "?p = row * ?w + pix \<longleftrightarrow> ?p div ?w = row \<and> ?p mod ?w = pix"
      using "1.prems" True by (intro pos_eq_iff) auto
    have inner: "data (bit_loop ta row pix 0 dest) ! i =
       (if ?p div ?w = row \<and> ?p mod ?w = pix
        then getPixelValue (srcImage ta) pix row (int i mod ?b) (algorithm ta)
        else data dest ! i)"
      using bit_loop_nth [OF "1.prems"(1) _ base "1.prems"(4), of 0] m eq by simp
    have "data (pix_loop ta row pix dest) ! i =
        data (pix_loop ta row (pix + 1) (bit_loop ta row pix 0 dest)) ! i"
      using True by (subst pix_loop.simps) simp
    also have "\<dots> = (if ?p div ?w = row \<and> pix + 1 \<le> ?p mod ?w
       then getPixelValue (srcImage ta) (?p mod ?w) row (int i mod ?b) (algorithm ta)
       else data (bit_loop ta row pix 0 dest) ! i)"
      using "1.IH" [OF True lt] "1.prems" by simp
    finally show ?thesis
      unfolding inner by auto
  next
    case False
    have "?p mod ?w < ?w" using "1.prems" by simp
    then have "\<not> pix \<le> ?p mod ?w" using False by simp
    then show ?thesis using False
      by (subst pix_loop.simps) simp
  qed
qed

lemma row_loop_length:
  "length (data (row_loop ta row dest)) = length (data dest)"
proof (induction ta row dest rule: row_loop.induct)
  case (1 ta row dest)
  then show ?case
    by (subst row_loop.simps) (simp add: pix_loop_length)
qed

lemma row_loop_frame:
  "row_loop ta row dest = dest\<lparr>data := data (row_loop ta row dest)\<rparr>"
proof (induction ta row dest rule: row_loop.induct)
  case (1 ta row dest)
  show ?case
  proof (cases "row < end_row ta")
    case True
    have "row_loop ta row dest = row_loop ta (row + 1) (pix_loop ta row 0 dest)"
      using True by (subst row_loop.simps) simp
    then show ?thesis
      using "1.IH" [OF True] pix_loop_frame [of ta row 0 dest]
      by (metis Image.surjective Image.update_convs(1))
  next
    case False
    then show ?thesis by (subst (1 2) row_loop.simps) simp
  qed
qed

lemma row_loop_nth:
  assumes "i < length (data dest)" "0 \<le> row"
    "0 < bpp (srcImage ta)" "0 < width (srcImage ta)"
  shows "data (row_loop ta row dest) ! i =
    (if row \<le> int i div bpp (srcImage ta) div width (srcImage ta)
        \<and> int i div bpp (srcImage ta) div width (srcImage ta) < end_row ta
     then getPixelValue (srcImage ta) (int i div bpp (srcImage ta) mod width (srcImage ta))
            (int i div bpp (srcImage ta) div width (srcImage ta))
            (int i mod bpp (srcImage ta)) (algorithm ta)
     else data dest ! i)"
  using assms
proof (induction ta row dest rule: row_loop.induct)
  case (1 ta row dest)
  let ?b = "bpp (srcImage ta)" and ?w = "width (srcImage ta)"
  let ?p = "int i div ?b"
  show ?case
  proof (cases "row < end_row ta")
    case True
    have lt: "i < length (data (pix_loop ta row 0 dest))"
      using "1.prems" by (simp add: pix_loop_length)
    have m: "0 \<le> ?p mod ?w" using "1.prems" by simp
    have inner: "data (pix_loop ta row 0 dest) ! i =
       (if ?p div ?w = row
        then getPixelValue (srcImage ta) (?p mod ?w) row (int i mod ?b) (algorithm ta)
        else data dest ! i)"
      using pix_loop_nth [OF "1.prems"(1) _ "1.prems"(2,3,4), of 0] m by simp
    have "data (row_loop ta row dest) ! i =
        data (row_loop ta (row + 1) (pix_loop ta row 0 dest)) ! i"
      using True by (subst row_loop.simps) simp
    also have "\<dots> = (if row + 1 \<le> ?p div ?w \<and> ?p div ?w < end_row ta
       then getPixelValue (srcImage ta) (?p mod ?w) (?p div ?w) (int i mod ?b) (algorithm ta)
       else data (pix_loop ta row 0 dest) ! i)"
      using "1.IH" [OF True lt] "1.prems" by simp
    finally show ?thesis
      unfolding inner using True by auto
  next
    case False
    then show ?thesis
      by (subst row_loop.simps) auto
  qed
qed

section \<open>Properties of the partition\<close>

lemma c_div_nonneg: "0 \<le> a \<Longrightarrow> 0 < b \<Longrightarrow> c_div a b = a div b"
  by (simp add: c_div_def)

lemma c_mod_nonneg: "0 \<le> a \<Longrightarrow> 0 < b \<Longrightarrow> c_mod a b = a mod b"
  by (simp add: c_mod_def c_div_nonneg minus_mult_div_eq_mod)

lemma band_start_0: "0 < n \<Longrightarrow> band_start h n 0 = 0"
  by (simp add: band_start_def)

lemma band_start_step:
  "band_start h n (k + 1) = band_start h n k + band_size h n k"
  by (simp add: band_start_def band_size_def algebra_simps min_def)

lemma band_size_nonneg: "0 \<le> h \<Longrightarrow> 0 < n \<Longrightarrow> 0 \<le> band_size h n k"
  by (simp add: band_size_def pos_imp_zdiv_nonneg_iff)

lemma band_start_total: "0 < n \<Longrightarrow> band_start h n n = h"
proof -
  assume n: "0 < n"
  then have "h mod n < n" by simp
  then have "min n (h mod n) = h mod n" by simp
  then show ?thesis by (simp add: band_start_def)
qed

lemma band_start_mono:
  assumes "0 \<le> h" "0 < n" "k \<le> k'"
  shows "band_start h n k \<le> band_start h n k'"
proof -
  have "0 \<le> h div n" using assms by (simp add: pos_imp_zdiv_nonneg_iff)
  then have "k * (h div n) \<le> k' * (h div n)" using assms(3) by (simp add: mult_right_mono)
  moreover have "min k (h mod n) \<le> min k' (h mod n)" using assms(3) by simp
  ultimately show ?thesis by (simp add: band_start_def add_mono)
qed

lemma args_loop_closed:
  assumes "0 \<le> height src" "0 < n" "current_start = band_start (height src) n i"
  shows "args_loop n src alg i current_start =
    map (\<lambda>k. \<lparr>srcImage = src, algorithm = alg,
               start_row = band_start (height src) n k,
               end_row = band_start (height src) n (k + 1)\<rparr>) [i..n - 1]"
  using assms
proof (induction n src alg i current_start rule: args_loop.induct)
  case (1 n src alg i cs)
  show ?case
  proof (cases "i < n")
    case True
    let ?e = "cs + c_div (height src) n + (if i < c_mod (height src) n then 1 else 0)"
    have e: "?e = band_start (height src) n (i + 1)"
      using "1.prems" by (simp add: band_start_step band_size_def c_div_nonneg c_mod_nonneg)
    have up: "[i..n - 1] = i # [i + 1..n - 1]"
      using True by (simp add: upto_rec1)
    have "args_loop n src alg i cs =
       \<lparr>srcImage = src, algorithm = alg, start_row = cs, end_row = ?e\<rparr>
         # args_loop n src alg (i + 1) ?e"
      using True by (subst args_loop.simps) (simp add: Let_def)
    also have "args_loop n src alg (i + 1) ?e =
      map (\<lambda>k. \<lparr>srcImage = src, algorithm = alg,
               start_row = band_start (height src) n k,
               end_row = band_start (height src) n (k + 1)\<rparr>) [i + 1..n - 1]"
      using "1.IH" [OF True refl refl refl refl] "1.prems" e by simp
    finally show ?thesis
      using e "1.prems" by (simp add: up)
  next
    case False
    then show ?thesis by (subst args_loop.simps) simp
  qed
qed

lemma int_div_less_iff:
  fixes p w h :: int
  assumes "0 < w"
  shows "p div w < h \<longleftrightarrow> p < h * w"
proof
  assume "p div w < h"
  then have "(p div w + 1) * w \<le> h * w" using assms by (intro mult_right_mono) auto
  then have "p div w * w + w \<le> h * w" by (simp add: algebra_simps)
  moreover have "p mod w < w" using assms by simp
  moreover have "p = p div w * w + p mod w" by simp
  ultimately show "p < h * w" by linarith
next
  assume lt: "p < h * w"
  show "p div w < h"
  proof (rule ccontr)
    assume "\<not> p div w < h"
    then have "h * w \<le> p div w * w" using assms by (intro mult_right_mono) auto
    moreover have "0 \<le> p mod w" using assms by simp
    moreover have "p = p div w * w + p mod w" by simp
    ultimately show False using lt by linarith
  qed
qed

lemma band_cover:
  assumes "0 \<le> y" "y < band_start h n (int m)" "0 < n"
  shows "\<exists>k. 0 \<le> k \<and> k < int m \<and> band_start h n k \<le> y \<and> y < band_start h n (k + 1)"
  using assms(2)
proof (induction m)
  case 0
  then show ?case using assms by (simp add: band_start_0)
next
  case (Suc m)
  show ?case
  proof (cases "y < band_start h n (int m)")
    case True
    then obtain k where "0 \<le> k" "k < int m" "band_start h n k \<le> y" "y < band_start h n (k + 1)"
      using Suc.IH by blast
    then show ?thesis by (intro exI [of _ k]) simp
  next
    case False
    then show ?thesis using Suc.prems
      by (intro exI [of _ "int m"]) (simp add: add.commute)
  qed
qed

section \<open>Properties of the pixel convolution\<close>

lemma clamp_coord_minus: "0 \<le> x \<Longrightarrow> x < n \<Longrightarrow>
    clamp_coord n (x - 1) = (if x - 1 < 0 then 0 else x - 1)"
  by (simp add: clamp_coord_def)

lemma clamp_coord_same: "0 \<le> x \<Longrightarrow> x < n \<Longrightarrow> clamp_coord n x = x"
  by (simp add: clamp_coord_def)

lemma clamp_coord_plus: "0 \<le> x \<Longrightarrow> x < n \<Longrightarrow>
    clamp_coord n (x + 1) = (if n \<le> x + 1 then n - 1 else x + 1)"
  by (simp add: clamp_coord_def)

lemma getPixelSum_neighbourhood:
  assumes "0 \<le> x" "x < width src" "0 \<le> y" "y < height src"
  shows "getPixelSum src x y c k = neighbourhood_sum src x y c k"
proof -
  obtain a00 a01 a02 a10 a11 a12 a20 a21 a22
    where k: "k = ((a00, a01, a02), (a10, a11, a12), (a20, a21, a22))"
    by (metis prod_cases3)
  show ?thesis
    using assms
    by (simp add: k neighbourhood_sum_def clamp_coord_minus clamp_coord_same
        clamp_coord_plus Let_def split del: if_split cong: if_cong)
qed

text \<open>The edge kernel at the centre of the 3 by 3 raster: all nine products are integers.\<close>

lemma pixel_sum_3x3:
  "getPixelSum raster_3x3 1 1 0 (algorithms EDGE) = 1020"
  by (simp add: raster_3x3_def pixel_def Index_def double_of_u8_def double_mul_def
      double_add_def to_double_numeral to_double_neg_numeral to_double_0)

section \<open>Properties of the engine\<close>

subsection \<open>What the workers leave in the destination\<close>

lemma thread_convolute_length:
  "length (data (thread_convolute ta dest)) = length (data dest)"
  by (simp add: thread_convolute_def row_loop_length)

lemma thread_convolute_frame:
  "thread_convolute ta dest = dest\<lparr>data := data (thread_convolute ta dest)\<rparr>"
  unfolding thread_convolute_def by (rule row_loop_frame)

lemma thread_convolute_nth:
  assumes "i < length (data dest)" "0 \<le> start_row ta"
    "0 < bpp (srcImage ta)" "0 < width (srcImage ta)"
  shows "data (thread_convolute ta dest) ! i =
    (if start_row ta \<le> row_of (srcImage ta) i \<and> row_of (srcImage ta) i < end_row ta
     then getPixelValue (srcImage ta) (col_of (srcImage ta) i) (row_of (srcImage ta) i)
            (chan_of (srcImage ta) i) (algorithm ta)
     else data dest ! i)"
  unfolding thread_convolute_def row_of_def col_of_def chan_of_def
  using assms by (rule row_loop_nth)

lemma thread_convolute_empty:
  "end_row ta \<le> start_row ta \<Longrightarrow> thread_convolute ta dest = dest"
  unfolding thread_convolute_def by (subst row_loop.simps) simp

lemma pthread_create_length:
  "length (data (pthread_create ok ta dest)) = length (data dest)"
  by (simp add: pthread_create_def thread_convolute_length)

lemma pthread_create_frame:
  "pthread_create ok ta dest = dest\<lparr>data := data (pthread_create ok ta dest)\<rparr>"
  using thread_convolute_frame [of ta dest] by (simp add: pthread_create_def)

lemma run_workers_length:
  "length (data (run_workers started k tas dest)) = length (data dest)"
  by (induction tas arbitrary: k dest) (simp_all add: pthread_create_length)

lemma run_workers_frame:
  "run_workers started k tas dest = dest\<lparr>data := data (run_workers started k tas dest)\<rparr>"
proof (induction tas arbitrary: k dest)
  case Nil
  show ?case by simp
next
  case (Cons ta tas)
  show ?case
    using Cons [of "k + 1" "pthread_create (started k) ta dest"]
      pthread_create_frame [of "started k" ta dest]
    by (metis Image.surjective Image.update_convs(1) run_workers.simps(2))
qed

lemma if_twice: "(if B then v else if A then v else d) = (if A \<or> B then v else d)"
  by simp

lemma run_workers_nth:
  assumes "\<forall>ta\<in>set tas. srcImage ta = src \<and> algorithm ta = alg \<and> 0 \<le> start_row ta"
    and "i < length (data dest)" "0 < bpp src" "0 < width src"
  shows "data (run_workers started k tas dest) ! i =
    (if \<exists>j<length tas. started (k + int j)
          \<and> start_row (tas ! j) \<le> row_of src i \<and> row_of src i < end_row (tas ! j)
     then getPixelValue src (col_of src i) (row_of src i) (chan_of src i) alg
     else data dest ! i)"
  using assms(1,2)
proof (induction tas arbitrary: k dest)
  case Nil
  show ?case by simp
next
  case (Cons ta tas)
  let ?P = "\<lambda>ta. start_row ta \<le> row_of src i \<and> row_of src i < end_row ta"
  let ?v = "getPixelValue src (col_of src i) (row_of src i) (chan_of src i) alg"
  let ?d = "pthread_create (started k) ta dest"
  have ta: "srcImage ta = src" "algorithm ta = alg" "0 \<le> start_row ta"
    using Cons.prems(1) by simp_all
  have first: "data ?d ! i = (if started k \<and> ?P ta then ?v else data dest ! i)"
    using thread_convolute_nth [of i dest ta] Cons.prems(2) ta assms(3,4)
    by (simp add: pthread_create_def)
  have rest: "data (run_workers started (k + 1) tas ?d) ! i =
      (if \<exists>j<length tas. started (k + 1 + int j) \<and> ?P (tas ! j) then ?v else data ?d ! i)"
  proof -
    have prem: "\<forall>ta\<in>set tas. srcImage ta = src \<and> algorithm ta = alg \<and> 0 \<le> start_row ta"
      using Cons.prems(1) by simp
    have len: "i < length (data ?d)"
      using Cons.prems(2) by (simp add: pthread_create_length)
    show ?thesis by (rule Cons.IH [OF prem len])
  qed
  have ex: "(\<exists>j<length (ta # tas). started (k + int j) \<and> ?P ((ta # tas) ! j)) \<longleftrightarrow>
      (started k \<and> ?P ta) \<or> (\<exists>j<length tas. started (k + 1 + int j) \<and> ?P (tas ! j))"
    (is "?L \<longleftrightarrow> ?A \<or> ?B")
  proof
    assume ?L
    then obtain j where j: "j < length (ta # tas)" "started (k + int j)" "?P ((ta # tas) ! j)"
      by blast
    show "?A \<or> ?B"
    proof (cases j)
      case 0
      then show ?thesis using j by simp
    next
      case (Suc j')
      have "k + int (Suc j') = k + 1 + int j'" by simp
      then have "j' < length tas \<and> started (k + 1 + int j') \<and> ?P (tas ! j')"
        using j Suc by (metis Suc_less_eq length_Cons nth_Cons_Suc)
      then show ?thesis by blast
    qed
  next
    assume "?A \<or> ?B"
    then show ?L
    proof
      assume ?A
      then show ?L by (intro exI [of _ 0]) simp
    next
      assume ?B
      then obtain j where "j < length tas" "started (k + 1 + int j)" "?P (tas ! j)" by blast
      moreover have "k + int (Suc j) = k + 1 + int j" by simp
      ultimately have "Suc j < length (ta # tas) \<and> started (k + int (Suc j)) \<and> ?P ((ta # tas) ! Suc j)"
        by (metis Suc_less_eq length_Cons nth_Cons_Suc)
      then show ?L by blast
    qed
  qed
  have "data (run_workers started k (ta # tas) dest) ! i =
      data (run_workers started (k + 1) tas ?d) ! i"
    by simp
  also have "\<dots> = (if (started k \<and> ?P ta) \<or> (\<exists>j<length tas. started (k + 1 + int j) \<and> ?P (tas ! j))
     then ?v else data dest ! i)"
    by (simp only: rest first if_twice)
  finally show ?case
    by (simp only: ex)
qed

subsection \<open>The bands that the engine builds\<close>

lemma args_bands:
  assumes "0 \<le> height src" "0 < n"
  shows "args n src alg =
    map (\<lambda>k. \<lparr>srcImage = src, algorithm = alg,
               start_row = band_start (height src) n k,
               end_row = band_start (height src) n (k + 1)\<rparr>) [0..n - 1]"
  unfolding args_def using assms by (intro args_loop_closed) (simp_all add: band_start_0)

lemma band_start_nonneg: "0 \<le> h \<Longrightarrow> 0 < n \<Longrightarrow> 0 \<le> k \<Longrightarrow> 0 \<le> band_start h n k"
  using band_start_mono [of h n 0 k] by (simp add: band_start_0)

lemma band_start_le_height:
  "0 \<le> h \<Longrightarrow> 0 < n \<Longrightarrow> k \<le> n \<Longrightarrow> band_start h n k \<le> h"
  using band_start_mono [of h n k n] by (simp add: band_start_total)

lemma convolute_started_length:
  "length (data (convolute_started n started src dest alg)) = length (data dest)"
  by (simp add: convolute_started_def run_workers_length)

lemma convolute_started_frame:
  "convolute_started n started src dest alg =
     dest\<lparr>data := data (convolute_started n started src dest alg)\<rparr>"
  unfolding convolute_started_def by (rule run_workers_frame)

lemma convolute_started_nth:
  assumes "0 < width src" "0 < bpp src" "0 \<le> height src" "0 < n"
    and "i < length (data dest)"
  shows "data (convolute_started n started src dest alg) ! i =
    (if \<exists>k. 0 \<le> k \<and> k < n \<and> started k
          \<and> band_start (height src) n k \<le> row_of src i
          \<and> row_of src i < band_start (height src) n (k + 1)
     then getPixelValue src (col_of src i) (row_of src i) (chan_of src i) alg
     else data dest ! i)"
proof -
  let ?band = "\<lambda>k. \<lparr>srcImage = src, algorithm = alg,
               start_row = band_start (height src) n k,
               end_row = band_start (height src) n (k + 1)\<rparr>"
  let ?tas = "map ?band [0..n - 1]"
  have tas: "args n src alg = ?tas"
    using assms(3,4) by (rule args_bands)
  have len: "length ?tas = nat n" by simp
  have nth: "?tas ! j = ?band (int j)" if "j < nat n" for j
    using that by simp
  have wf: "\<forall>ta\<in>set ?tas. srcImage ta = src \<and> algorithm ta = alg \<and> 0 \<le> start_row ta"
    using assms(3,4) by (auto simp: band_start_nonneg)
  have ex: "(\<exists>j<length ?tas. started (0 + int j)
          \<and> start_row (?tas ! j) \<le> row_of src i \<and> row_of src i < end_row (?tas ! j)) \<longleftrightarrow>
      (\<exists>k. 0 \<le> k \<and> k < n \<and> started k
          \<and> band_start (height src) n k \<le> row_of src i
          \<and> row_of src i < band_start (height src) n (k + 1))" (is "?L \<longleftrightarrow> ?R")
  proof
    assume ?L
    then obtain j where j: "j < nat n" "started (int j)"
      "start_row (?tas ! j) \<le> row_of src i" "row_of src i < end_row (?tas ! j)"
      unfolding len by auto
    have "0 \<le> int j \<and> int j < n \<and> started (int j)
          \<and> band_start (height src) n (int j) \<le> row_of src i
          \<and> row_of src i < band_start (height src) n (int j + 1)"
      using j nth [OF j(1)] by simp
    then show ?R by blast
  next
    assume ?R
    then obtain k where k: "0 \<le> k" "k < n" "started k"
      "band_start (height src) n k \<le> row_of src i"
      "row_of src i < band_start (height src) n (k + 1)" by blast
    have lt: "nat k < nat n" using k by simp
    have "nat k < length ?tas \<and> started (0 + int (nat k))
          \<and> start_row (?tas ! nat k) \<le> row_of src i \<and> row_of src i < end_row (?tas ! nat k)"
      using k nth [OF lt] len lt by simp
    then show ?L by blast
  qed
  show ?thesis
    unfolding convolute_started_def tas
    using run_workers_nth [OF wf assms(5,2,1), of started 0]
    by (simp only: ex)
qed

subsection \<open>The engine computes the pixel-by-pixel definition\<close>

lemma row_of_nonneg: "0 < width src \<Longrightarrow> 0 < bpp src \<Longrightarrow> 0 \<le> row_of src i"
  by (simp add: row_of_def pos_imp_zdiv_nonneg_iff)

lemma row_of_less_iff:
  assumes "0 < width src" "0 < bpp src"
  shows "row_of src i < height src \<longleftrightarrow> int i < width src * height src * bpp src"
proof -
  have "row_of src i < height src \<longleftrightarrow> int i div bpp src < height src * width src"
    unfolding row_of_def using assms(1) by (rule int_div_less_iff)
  also have "\<dots> \<longleftrightarrow> int i < height src * width src * bpp src"
    using assms(2) by (rule int_div_less_iff)
  finally show ?thesis by (simp add: mult.commute)
qed

lemma band_of_row:
  assumes "0 \<le> h" "0 < n"
  shows "(\<exists>k. 0 \<le> k \<and> k < n \<and> band_start h n k \<le> y \<and> y < band_start h n (k + 1))
     \<longleftrightarrow> 0 \<le> y \<and> y < h" (is "?L \<longleftrightarrow> ?R")
proof
  assume ?L
  then obtain k where k: "0 \<le> k" "k < n" "band_start h n k \<le> y" "y < band_start h n (k + 1)"
    by blast
  have "0 \<le> band_start h n k" using assms k by (simp add: band_start_nonneg)
  moreover have "band_start h n (k + 1) \<le> h" using assms k by (simp add: band_start_le_height)
  ultimately show ?R using k by simp
next
  assume r: ?R
  have "y < band_start h n (int (nat n))" using r assms by (simp add: band_start_total)
  then obtain k where "0 \<le> k" "k < int (nat n)" "band_start h n k \<le> y"
    "y < band_start h n (k + 1)"
    using band_cover [of y h n "nat n"] r assms by blast
  then show ?L using assms by (intro exI [of _ k]) simp
qed

lemma convolute_n_length:
  "length (data (convolute_n n src dest alg)) = length (data dest)"
  by (simp add: convolute_n_def convolute_started_length)

lemma convolute_n_frame:
  "convolute_n n src dest alg = dest\<lparr>data := data (convolute_n n src dest alg)\<rparr>"
  unfolding convolute_n_def by (rule convolute_started_frame)

lemma convolute_n_nth:
  assumes "0 < width src" "0 < bpp src" "0 \<le> height src" "0 < n"
    and "i < length (data dest)"
  shows "data (convolute_n n src dest alg) ! i =
    (if int i < width src * height src * bpp src
     then getPixelValue src (col_of src i) (row_of src i) (chan_of src i) alg
     else data dest ! i)"
proof -
  have "(\<exists>k. 0 \<le> k \<and> k < n \<and> True \<and> band_start (height src) n k \<le> row_of src i
          \<and> row_of src i < band_start (height src) n (k + 1))
     \<longleftrightarrow> int i < width src * height src * bpp src"
    using band_of_row [OF assms(3,4), of "row_of src i"] row_of_nonneg [OF assms(1,2), of i]
      row_of_less_iff [OF assms(1,2), of i]
    by simp
  then show ?thesis
    unfolding convolute_n_def
    using convolute_started_nth [OF assms, of "\<lambda>i. True" alg] by simp
qed

lemma convolute_n_direct:
  assumes "0 < width src" "0 < bpp src" "0 \<le> height src" "0 < n"
    and "int (length (data dest)) = width src * height src * bpp src"
  shows "data (convolute_n n src dest alg) = convolve_direct src alg"
proof (rule nth_equalityI)
  show "length (data (convolute_n n src dest alg)) = length (convolve_direct src alg)"
    using assms(5) by (simp add: convolute_n_length convolve_direct_def)
next
  fix i
  assume "i < length (data (convolute_n n src dest alg))"
  then have i: "i < length (data dest)" by (simp add: convolute_n_length)
  then have lt: "int i < width src * height src * bpp src" using assms(5) by linarith
  have "i < nat (width src * height src * bpp src)" using lt by simp
  then have "convolve_direct src alg ! i =
      getPixelValue src (col_of src i) (row_of src i) (chan_of src i) alg"
    by (simp add: convolve_direct_def)
  then show "data (convolute_n n src dest alg) ! i = convolve_direct src alg ! i"
    using convolute_n_nth [OF assms(1-4) i, of alg] lt by simp
qed

subsection \<open>Offsets inside a raster\<close>

text \<open>
  Inside a raster every offset that \<^verbatim>\<open>getPixelValue\<close> and the workers compute lies
  within the buffer, and belongs to the channel asked for.
\<close>

lemma Index_in_raster:
  assumes "raster src" "0 \<le> x" "x < width src" "0 \<le> y" "y < height src"
    "0 \<le> c" "c < bpp src"
  shows "0 \<le> Index x y (width src) c (bpp src)"
    and "nat (Index x y (width src) c (bpp src)) < length (data src)"
    and "chan_of src (nat (Index x y (width src) c (bpp src))) = c"
proof -
  let ?w = "width src" and ?h = "height src" and ?b = "bpp src"
  have p0: "0 \<le> y * ?w + x" using assms by (simp add: raster_def)
  have "y * ?w + x < y * ?w + ?w" using assms by simp
  also have "\<dots> = (y + 1) * ?w" by (simp add: algebra_simps)
  also have "\<dots> \<le> ?h * ?w" using assms by (intro mult_right_mono) (auto simp: raster_def)
  finally have p1: "y * ?w + x + 1 \<le> ?h * ?w" by simp
  show nn: "0 \<le> Index x y ?w c ?b" using p0 assms by (simp add: Index_def raster_def)
  have "Index x y ?w c ?b < (y * ?w + x) * ?b + ?b" using assms by (simp add: Index_def)
  also have "\<dots> = (y * ?w + x + 1) * ?b" by (simp add: algebra_simps)
  also have "\<dots> \<le> ?h * ?w * ?b" using p1 assms by (intro mult_right_mono) (auto simp: raster_def)
  finally have "Index x y ?w c ?b < int (length (data src))"
    using assms(1) by (simp add: raster_def mult.commute)
  then show "nat (Index x y ?w c ?b) < length (data src)" using nn by simp
  show "chan_of src (nat (Index x y ?w c ?b)) = c"
    using nn assms by (simp add: chan_of_def Index_decode)
qed

lemma Index_of_offset:
  assumes "0 < width src" "0 < bpp src"
  shows "Index (col_of src i) (row_of src i) (width src) (chan_of src i) (bpp src) = int i"
  by (simp add: Index_def col_of_def row_of_def chan_of_def)

lemma offset_in_raster:
  assumes "raster src" "i < length (data src)"
  shows "0 \<le> col_of src i" "col_of src i < width src" "0 \<le> row_of src i"
    "row_of src i < height src" "0 \<le> chan_of src i" "chan_of src i < bpp src"
proof -
  have w: "0 < width src" and b: "0 < bpp src" using assms(1) by (simp_all add: raster_def)
  show "0 \<le> col_of src i" "col_of src i < width src" using w by (simp_all add: col_of_def)
  show "0 \<le> chan_of src i" "chan_of src i < bpp src" using b by (simp_all add: chan_of_def)
  show "0 \<le> row_of src i" using w b by (rule row_of_nonneg)
  have "int i < width src * height src * bpp src" using assms by (simp add: raster_def)
  then show "row_of src i < height src" using row_of_less_iff [OF w b] by simp
qed

lemma pixel_at_offset:
  assumes "0 < width src" "0 < bpp src"
  shows "pixel src (col_of src i) (row_of src i) (chan_of src i) = data src ! i"
  using Index_of_offset [OF assms, of i] by (simp add: pixel_def)

lemma clamp_coord_range: "0 < n \<Longrightarrow> 0 \<le> clamp_coord n v \<and> clamp_coord n v < n"
  by (simp add: clamp_coord_def)

subsection \<open>The identity kernel\<close>

lemma double_of_u8_uint: "double_of_u8 b = of_int (uint b)"
  by (simp add: double_of_u8_def)

lemma c_trunc_of_int: "c_trunc (of_int k) = k"
  by (simp add: c_trunc_def)

lemma to_double_u8: "to_double (double_of_u8 b) = double_of_u8 b"
proof -
  have "uint b < 256" using uint_bounded [of b] by simp
  moreover have "0 \<le> uint b" by simp
  ultimately have "\<bar>uint b\<bar> < 2 ^ 53" by simp
  then show ?thesis
    unfolding double_of_u8_uint by (rule to_double_of_int)
qed

lemma u8_of_double_of_u8: "u8_of_double (double_of_u8 b) = b"
  unfolding double_of_u8_uint u8_of_double_def c_trunc_of_int by simp

lemma getPixelSum_identity:
  "getPixelSum src x y c (algorithms IDENTITY) = double_of_u8 (pixel src x y c)"
  by (simp add: double_mul_def double_add_def to_double_0 to_double_u8 Let_def)

lemma getPixelValue_identity:
  "getPixelValue src x y c (algorithms IDENTITY) = pixel src x y c"
  by (simp add: getPixelValue_def getPixelSum_identity u8_of_double_of_u8
      del: algorithms.simps)

lemma convolve_direct_identity:
  assumes "raster src"
  shows "convolve_direct src (algorithms IDENTITY) = data src"
proof (rule nth_equalityI)
  have len: "int (length (data src)) = width src * height src * bpp src"
    using assms by (simp add: raster_def)
  then show l: "length (convolve_direct src (algorithms IDENTITY)) = length (data src)"
    by (simp add: convolve_direct_def)
  fix i
  assume "i < length (convolve_direct src (algorithms IDENTITY))"
  then have "i < nat (width src * height src * bpp src)" by (simp add: convolve_direct_def)
  then have "convolve_direct src (algorithms IDENTITY) ! i =
      getPixelValue src (col_of src i) (row_of src i) (chan_of src i) (algorithms IDENTITY)"
    by (simp add: convolve_direct_def del: algorithms.simps)
  also have "\<dots> = data src ! i"
    using assms by (simp add: getPixelValue_identity pixel_at_offset raster_def
        del: algorithms.simps)
  finally show "convolve_direct src (algorithms IDENTITY) ! i = data src ! i" .
qed

subsection \<open>The bands by their index\<close>

lemma args_length:
  assumes "0 \<le> height src" "0 < n"
  shows "length (args n src alg) = nat n"
  by (simp add: args_bands [OF assms])

lemma args_nth:
  assumes "0 \<le> height src" "0 < n" "j < nat n"
  shows "args n src alg ! j =
    \<lparr>srcImage = src, algorithm = alg,
     start_row = band_start (height src) n (int j),
     end_row = band_start (height src) n (int j + 1)\<rparr>"
  using assms(3) by (simp add: args_bands [OF assms(1,2)])

lemma band_start_disjoint:
  assumes "0 \<le> h" "0 < n"
    and "band_start h n i \<le> y" "y < band_start h n (i + 1)"
    and "band_start h n j \<le> y" "y < band_start h n (j + 1)"
  shows "i = j"
proof (rule ccontr)
  assume "i \<noteq> j"
  then consider "i + 1 \<le> j" | "j + 1 \<le> i" by linarith
  then show False
  proof cases
    case 1
    then have "band_start h n (i + 1) \<le> band_start h n j"
      using assms(1,2) by (intro band_start_mono)
    then show False using assms by linarith
  next
    case 2
    then have "band_start h n (j + 1) \<le> band_start h n i"
      using assms(1,2) by (intro band_start_mono)
    then show False using assms by linarith
  qed
qed

subsection \<open>Rasters that agree on a channel\<close>

lemma pixel_agree:
  assumes "raster src1" "raster src2"
    and "width src1 = width src2" "height src1 = height src2" "bpp src1 = bpp src2"
    and "\<forall>i<length (data src1). chan_of src1 i = c \<longrightarrow> data src1 ! i = data src2 ! i"
    and "0 \<le> x" "x < width src1" "0 \<le> y" "y < height src1" "0 \<le> c" "c < bpp src1"
  shows "pixel src1 x y c = pixel src2 x y c"
proof -
  let ?k = "nat (Index x y (width src1) c (bpp src1))"
  have "?k < length (data src1)" "chan_of src1 ?k = c"
    using Index_in_raster [OF assms(1,7-12)] by simp_all
  then have "data src1 ! ?k = data src2 ! ?k" using assms(6) by blast
  then show ?thesis using assms(3,5) by (simp add: pixel_def)
qed

lemma neighbourhood_sum_agree:
  assumes "raster src1" "raster src2"
    and "width src1 = width src2" "height src1 = height src2" "bpp src1 = bpp src2"
    and "\<forall>i<length (data src1). chan_of src1 i = c \<longrightarrow> data src1 ! i = data src2 ! i"
    and "0 \<le> c" "c < bpp src1"
  shows "neighbourhood_sum src1 x y c k = neighbourhood_sum src2 x y c k"
proof -
  have w: "0 < width src1" and h: "0 < height src1" using assms(1) by (simp_all add: raster_def)
  have "weighted_neighbour src1 x y c p = weighted_neighbour src2 x y c p" for p
  proof -
    obtain wt dx dy where p: "p = (wt, dx, dy)" by (cases p)
    let ?x = "clamp_coord (width src1) (x + dx)" and ?y = "clamp_coord (height src1) (y + dy)"
    have "pixel src1 ?x ?y c = pixel src2 ?x ?y c"
      using assms(1-6) _ _ _ _ assms(7,8)
      by (rule pixel_agree) (simp_all add: clamp_coord_range w h)
    then show ?thesis using assms(3,4) by (simp add: p)
  qed
  then have "weighted_neighbour src1 x y c = weighted_neighbour src2 x y c" by (rule ext)
  then show ?thesis by (simp only: neighbourhood_sum_def)
qed

lemma getPixelValue_agree:
  assumes "raster src1" "raster src2"
    and "width src1 = width src2" "height src1 = height src2" "bpp src1 = bpp src2"
    and "\<forall>i<length (data src1). chan_of src1 i = c \<longrightarrow> data src1 ! i = data src2 ! i"
    and "0 \<le> x" "x < width src1" "0 \<le> y" "y < height src1" "0 \<le> c" "c < bpp src1"
  shows "getPixelValue src1 x y c k = getPixelValue src2 x y c k"
proof -
  have "getPixelSum src1 x y c k = neighbourhood_sum src1 x y c k"
    using assms(7-10) by (rule getPixelSum_neighbourhood)
  moreover have "getPixelSum src2 x y c k = neighbourhood_sum src2 x y c k"
    using assms(3,4,7-10) by (intro getPixelSum_neighbourhood) simp_all
  ultimately show ?thesis
    using neighbourhood_sum_agree [OF assms(1-6,11,12), of x y k]
    by (simp add: getPixelValue_def)
qed

subsection \<open>Uniform rasters and the blur kernel\<close>

text \<open>
  The nine products and the eight sums of the blur kernel on the bytes 100 and 7, each
  rounded on its own.
\<close>

lemma blur_prod_100:
  "double_mul (2001599834386887 / 18014398509481984) (double_of_u8 100) = 3127499741229511 / 281474976710656"
  by code_simp

lemma blur_sum_100_2:
  "double_add (3127499741229511 / 281474976710656) (3127499741229511 / 281474976710656) = 3127499741229511 / 140737488355328"
  by code_simp

lemma blur_sum_100_3:
  "double_add (3127499741229511 / 140737488355328) (3127499741229511 / 281474976710656) = 2345624805922133 / 70368744177664"
  by code_simp

lemma blur_sum_100_4:
  "double_add (2345624805922133 / 70368744177664) (3127499741229511 / 281474976710656) = 3127499741229511 / 70368744177664"
  by code_simp

lemma blur_sum_100_5:
  "double_add (3127499741229511 / 70368744177664) (3127499741229511 / 281474976710656) = 3909374676536889 / 70368744177664"
  by code_simp

lemma blur_sum_100_6:
  "double_add (3909374676536889 / 70368744177664) (3127499741229511 / 281474976710656) = 4691249611844267 / 70368744177664"
  by code_simp

lemma blur_sum_100_7:
  "double_add (4691249611844267 / 70368744177664) (3127499741229511 / 281474976710656) = 5473124547151645 / 70368744177664"
  by code_simp

lemma blur_sum_100_8:
  "double_add (5473124547151645 / 70368744177664) (3127499741229511 / 281474976710656) = 6254999482459023 / 70368744177664"
  by code_simp

lemma blur_sum_100_9:
  "double_add (6254999482459023 / 70368744177664) (3127499741229511 / 281474976710656) = 7036874417766401 / 70368744177664"
  by code_simp

lemma blur_narrow_100:
  "u8_of_double (7036874417766401 / 70368744177664) = 100"
  by code_simp

lemma blur_prod_7:
  "double_mul (2001599834386887 / 18014398509481984) (double_of_u8 7) = 875699927544263 / 1125899906842624"
  by code_simp

lemma blur_sum_7_2:
  "double_add (875699927544263 / 1125899906842624) (875699927544263 / 1125899906842624) = 875699927544263 / 562949953421312"
  by code_simp

lemma blur_sum_7_3:
  "double_add (875699927544263 / 562949953421312) (875699927544263 / 1125899906842624) = 2627099782632789 / 1125899906842624"
  by code_simp

lemma blur_sum_7_4:
  "double_add (2627099782632789 / 1125899906842624) (875699927544263 / 1125899906842624) = 875699927544263 / 281474976710656"
  by code_simp

lemma blur_sum_7_5:
  "double_add (875699927544263 / 281474976710656) (875699927544263 / 1125899906842624) = 4378499637721315 / 1125899906842624"
  by code_simp

lemma blur_sum_7_6:
  "double_add (4378499637721315 / 1125899906842624) (875699927544263 / 1125899906842624) = 2627099782632789 / 562949953421312"
  by code_simp

lemma blur_sum_7_7:
  "double_add (2627099782632789 / 562949953421312) (875699927544263 / 1125899906842624) = 6129899492809841 / 1125899906842624"
  by code_simp

lemma blur_sum_7_8:
  "double_add (6129899492809841 / 1125899906842624) (875699927544263 / 1125899906842624) = 875699927544263 / 140737488355328"
  by code_simp

lemma blur_sum_7_9:
  "double_add (875699927544263 / 140737488355328) (875699927544263 / 1125899906842624) = 7881299347898367 / 1125899906842624"
  by code_simp

lemma blur_narrow_7:
  "u8_of_double (7881299347898367 / 1125899906842624) = 6"
  by code_simp

lemma neighbourhood_sum_uniform:
  assumes "raster src" "\<forall>i<length (data src). data src ! i = v" "0 \<le> c" "c < bpp src"
  shows "neighbourhood_sum src x y c k = uniform_sum k v"
proof -
  have w: "0 < width src" and h: "0 < height src" using assms(1) by (simp_all add: raster_def)
  have "weighted_neighbour src x y c p = (\<lambda>(wt, dx, dy). double_mul wt (double_of_u8 v)) p"
    for p
  proof -
    obtain wt dx dy where p: "p = (wt, dx, dy)" by (cases p)
    let ?x = "clamp_coord (width src) (x + dx)" and ?y = "clamp_coord (height src) (y + dy)"
    have "nat (Index ?x ?y (width src) c (bpp src)) < length (data src)"
      using assms(1) _ _ _ _ assms(3,4)
      by (rule Index_in_raster(2)) (simp_all add: clamp_coord_range w h)
    then have "pixel src ?x ?y c = v" using assms(2) by (simp add: pixel_def)
    then show ?thesis by (simp add: p)
  qed
  then have "weighted_neighbour src x y c = (\<lambda>(wt, dx, dy). double_mul wt (double_of_u8 v))"
    by (rule ext)
  then show ?thesis by (simp only: neighbourhood_sum_def uniform_sum_def)
qed

lemma convolute_n_uniform:
  assumes "raster src" "\<forall>i<length (data src). data src ! i = v"
    and "length (data dest) = length (data src)" "0 < n"
  shows "data (convolute_n n src dest k) =
    replicate (length (data src)) (u8_of_double (uniform_sum k v))"
proof (rule nth_equalityI)
  show "length (data (convolute_n n src dest k)) =
      length (replicate (length (data src)) (u8_of_double (uniform_sum k v)))"
    using assms(3) by (simp add: convolute_n_length)
next
  fix i
  assume "i < length (data (convolute_n n src dest k))"
  then have i: "i < length (data src)" using assms(3) by (simp add: convolute_n_length)
  have dims: "0 < width src" "0 < bpp src" "0 \<le> height src"
    and len: "int (length (data dest)) = width src * height src * bpp src"
    using assms(1,3) by (simp_all add: raster_def)
  note r = offset_in_raster [OF assms(1) i]
  have "data (convolute_n n src dest k) ! i =
      getPixelValue src (col_of src i) (row_of src i) (chan_of src i) k"
    using i assms(3) by (simp add: convolute_n_direct [OF dims assms(4) len] convolve_direct_def
        len [symmetric])
  also have "\<dots> = u8_of_double (neighbourhood_sum src (col_of src i) (row_of src i) (chan_of src i) k)"
    using r by (simp add: getPixelValue_def getPixelSum_neighbourhood)
  also have "\<dots> = u8_of_double (uniform_sum k v)"
    using neighbourhood_sum_uniform [OF assms(1,2) r(5,6)] by simp
  finally show "data (convolute_n n src dest k) ! i =
      replicate (length (data src)) (u8_of_double (uniform_sum k v)) ! i"
    using i by simp
qed

lemma uniform_sum_unfold:
  "uniform_sum ((a00, a01, a02), (a10, a11, a12), (a20, a21, a22)) v =
     double_add (double_add (double_add (double_add (double_add (double_add
       (double_add (double_add
         (double_mul a00 (double_of_u8 v))
         (double_mul a01 (double_of_u8 v)))
         (double_mul a02 (double_of_u8 v)))
         (double_mul a10 (double_of_u8 v)))
         (double_mul a11 (double_of_u8 v)))
         (double_mul a12 (double_of_u8 v)))
         (double_mul a20 (double_of_u8 v)))
         (double_mul a21 (double_of_u8 v)))
         (double_mul a22 (double_of_u8 v))"
  by (simp add: uniform_sum_def)

lemma blur_100: "u8_of_double (uniform_sum (algorithms BLUR) 100) = 100"
  by (simp only: algorithms.simps uniform_sum_unfold blur_weight blur_prod_100
      blur_sum_100_2 blur_sum_100_3 blur_sum_100_4 blur_sum_100_5 blur_sum_100_6
      blur_sum_100_7 blur_sum_100_8 blur_sum_100_9 blur_narrow_100)

lemma blur_7: "u8_of_double (uniform_sum (algorithms BLUR) 7) = 6"
  by (simp only: algorithms.simps uniform_sum_unfold blur_weight blur_prod_7
      blur_sum_7_2 blur_sum_7_3 blur_sum_7_4 blur_sum_7_5 blur_sum_7_6
      blur_sum_7_7 blur_sum_7_8 blur_sum_7_9 blur_narrow_7)

lemma uniform_4x4_raster: "raster (uniform_4x4 v)"
  by (simp add: raster_def uniform_4x4_def)

lemma uniform_4x4_bytes: "\<forall>i<length (data (uniform_4x4 v)). data (uniform_4x4 v) ! i = v"
  by (simp add: uniform_4x4_def)

lemma Image_data_update_eq:
  assumes "width dest = w" "height dest = h" "bpp dest = b"
  shows "dest\<lparr>data := d\<rparr> = \<lparr>data = d, width = w, height = h, bpp = b\<rparr>"
  using assms by (cases dest) simp

lemma convolute_n_uniform_4x4:
  assumes "width dest = 4" "height dest = 4" "bpp dest = 1" "length (data dest) = 16"
    and "0 < n"
  shows "convolute_n n (uniform_4x4 v) dest k = uniform_4x4 (u8_of_double (uniform_sum k v))"
proof -
  have l: "length (data dest) = length (data (uniform_4x4 v))"
    using assms(4) by (simp add: uniform_4x4_def)
  have "data (convolute_n n (uniform_4x4 v) dest k) =
      replicate 16 (u8_of_double (uniform_sum k v))"
    using convolute_n_uniform [OF uniform_4x4_raster uniform_4x4_bytes l assms(5), of k]
    by (simp add: uniform_4x4_def)
  then have "convolute_n n (uniform_4x4 v) dest k =
      dest\<lparr>data := replicate 16 (u8_of_double (uniform_sum k v))\<rparr>"
    using convolute_n_frame [of n "uniform_4x4 v" dest k] by simp
  then show ?thesis
    using assms(1-3) by (simp add: Image_data_update_eq uniform_4x4_def)
qed

text \<open>The same for the kernel \<open>normalised_blur\<close> on the byte 7.\<close>

lemma unit_prod_7:
  "double_mul (250199979298361 / 2251799813685248) (double_of_u8 7) = 1751399855088527 / 2251799813685248"
  by code_simp

lemma unit_sum_7_2:
  "double_add (1751399855088527 / 2251799813685248) (875699927544263 / 1125899906842624) = 3502799710177053 / 2251799813685248"
  by code_simp

lemma unit_sum_7_3:
  "double_add (3502799710177053 / 2251799813685248) (875699927544263 / 1125899906842624) = 5254199565265579 / 2251799813685248"
  by code_simp

lemma unit_sum_7_4:
  "double_add (5254199565265579 / 2251799813685248) (875699927544263 / 1125899906842624) = 7005599420354105 / 2251799813685248"
  by code_simp

lemma unit_sum_7_5:
  "double_add (7005599420354105 / 2251799813685248) (875699927544263 / 1125899906842624) = 8756999275442631 / 2251799813685248"
  by code_simp

lemma unit_sum_7_6:
  "double_add (8756999275442631 / 2251799813685248) (875699927544263 / 1125899906842624) = 2627099782632789 / 562949953421312"
  by code_simp

lemma normalised_blur_total:
  "sum_list (map fst (kernel_positions normalised_blur)) = 1"
  by (simp add: normalised_blur_def)

lemma normalised_blur_7: "u8_of_double (uniform_sum normalised_blur 7) = 6"
  by (simp only: normalised_blur_def uniform_sum_unfold unit_prod_7 blur_prod_7
      unit_sum_7_2 unit_sum_7_3 unit_sum_7_4 unit_sum_7_5 unit_sum_7_6
      blur_sum_7_7 blur_sum_7_8 blur_sum_7_9 blur_narrow_7)

subsection \<open>Workers that do not start\<close>









subsection \<open>Every schedule gives the same result\<close>

text \<open>
  A worker is the sequence of its stores; the destination after a sequence of stores
  depends on the set of the stores alone; hence every interleaving of the workers'
  stores leaves the destination that the engine of the model returns.
\<close>

lemma bit_loop_stores:
  "bit_loop ta row pix c dest =
     run_schedule (map (\<lambda>b. (ta, row, pix, b)) [c..bpp (srcImage ta) - 1]) dest"
proof (induction ta row pix c dest rule: bit_loop.induct)
  case (1 ta row pix c dest)
  show ?case
  proof (cases "c < bpp (srcImage ta)")
    case True
    then have up: "[c..bpp (srcImage ta) - 1] = c # [c + 1..bpp (srcImage ta) - 1]"
      by (simp add: upto_rec1)
    show ?thesis
      using True "1.IH" [OF True]
      by (subst bit_loop.simps) (simp add: up run_schedule_def)
  next
    case False
    then show ?thesis by (subst bit_loop.simps) (simp add: run_schedule_def)
  qed
qed

lemma run_schedule_append:
  "run_schedule (xs @ ys) dest = run_schedule ys (run_schedule xs dest)"
  by (simp add: run_schedule_def)

lemma pix_loop_stores:
  "pix_loop ta row p dest =
     run_schedule (concat (map (\<lambda>pix. map (\<lambda>b. (ta, row, pix, b)) [0..bpp (srcImage ta) - 1])
       [p..width (srcImage ta) - 1])) dest"
proof (induction ta row p dest rule: pix_loop.induct)
  case (1 ta row p dest)
  show ?case
  proof (cases "p < width (srcImage ta)")
    case True
    then have up: "[p..width (srcImage ta) - 1] = p # [p + 1..width (srcImage ta) - 1]"
      by (simp add: upto_rec1)
    show ?thesis
      using True "1.IH" [OF True]
      by (subst pix_loop.simps) (simp add: up run_schedule_append bit_loop_stores)
  next
    case False
    then show ?thesis by (subst pix_loop.simps) (simp add: run_schedule_def)
  qed
qed

lemma row_loop_stores:
  "row_loop ta r dest =
     run_schedule (concat (map (\<lambda>row.
       concat (map (\<lambda>pix. map (\<lambda>b. (ta, row, pix, b)) [0..bpp (srcImage ta) - 1])
         [0..width (srcImage ta) - 1]))
       [r..end_row ta - 1])) dest"
proof (induction ta r dest rule: row_loop.induct)
  case (1 ta r dest)
  show ?case
  proof (cases "r < end_row ta")
    case True
    then have up: "[r..end_row ta - 1] = r # [r + 1..end_row ta - 1]"
      by (simp add: upto_rec1)
    show ?thesis
      using True "1.IH" [OF True]
      by (subst row_loop.simps) (simp add: up run_schedule_append pix_loop_stores)
  next
    case False
    then show ?thesis by (subst row_loop.simps) (simp add: run_schedule_def)
  qed
qed

lemma thread_convolute_stores:
  "thread_convolute ta dest = run_schedule (map (Pair ta) (worker_stores ta)) dest"
  by (simp add: thread_convolute_def row_loop_stores worker_stores_def map_concat comp_def)

lemma set_concat_nth: "z \<in> set (concat xss) \<longleftrightarrow> (\<exists>j<length xss. z \<in> set (xss ! j))"
proof
  assume "z \<in> set (concat xss)"
  then obtain xs where xs: "xs \<in> set xss" "z \<in> set xs" by auto
  then obtain j where "j < length xss" "xss ! j = xs" by (auto simp: in_set_conv_nth)
  then show "\<exists>j<length xss. z \<in> set (xss ! j)" using xs(2) by blast
next
  assume "\<exists>j<length xss. z \<in> set (xss ! j)"
  then obtain j where "j < length xss" "z \<in> set (xss ! j)" by blast
  then show "z \<in> set (concat xss)" using nth_mem [of j xss] by auto
qed

lemma interleaving_set:
  "interleaving xss ys \<Longrightarrow> set ys = set (concat xss)"
proof (induction rule: interleaving.induct)
  case (finished xss)
  then show ?case by simp
next
  case (step k xss x xs ys)
  show ?case
  proof (rule set_eqI)
    fix z
    have "z \<in> set (x # ys) \<longleftrightarrow> z = x \<or> z \<in> set (concat (xss[k := xs]))"
      by (simp only: step.IH set_simps insert_iff)
    also have "\<dots> \<longleftrightarrow> z = x \<or> (\<exists>j<length xss. z \<in> set (xss[k := xs] ! j))"
      by (simp only: set_concat_nth length_list_update)
    also have "\<dots> \<longleftrightarrow> (\<exists>j<length xss. z \<in> set (xss ! j))" (is "?L \<longleftrightarrow> ?R")
    proof
      assume ?L
      then show ?R
      proof
        assume "z = x"
        then have "z \<in> set (xss ! k)" using step.hyps(2) by simp
        then show ?R using step.hyps(1) by blast
      next
        assume "\<exists>j<length xss. z \<in> set (xss[k := xs] ! j)"
        then obtain j where j: "j < length xss" "z \<in> set (xss[k := xs] ! j)" by blast
        then have "z \<in> set (xss ! j)"
          using step.hyps(2) by (cases "j = k") (simp_all add: nth_list_update)
        then show ?R using j(1) by blast
      qed
    next
      assume ?R
      then obtain j where j: "j < length xss" "z \<in> set (xss ! j)" by blast
      show ?L
      proof (cases "j = k")
        case True
        then have "z = x \<or> z \<in> set xs" using j(2) step.hyps(2) by simp
        then show ?thesis
        proof
          assume "z = x" then show ?thesis by simp
        next
          assume "z \<in> set xs"
          then have "z \<in> set (xss[k := xs] ! k)" using step.hyps(1) by simp
          then show ?thesis using step.hyps(1) by blast
        qed
      next
        case False
        then have "z \<in> set (xss[k := xs] ! j)" using j by simp
        then show ?thesis using j(1) by blast
      qed
    qed
    also have "\<dots> \<longleftrightarrow> z \<in> set (concat xss)" by (simp only: set_concat_nth)
    finally show "z \<in> set (x # ys) \<longleftrightarrow> z \<in> set (concat xss)" .
  qed
qed

lemma do_store_frame: "do_store s dest = dest\<lparr>data := data (do_store s dest)\<rparr>"
  by (cases s) (simp add: store_pixel_def)

lemma do_store_length: "length (data (do_store s dest)) = length (data dest)"
  by (cases s) (simp add: store_pixel_length)

lemma run_schedule_length: "length (data (run_schedule sched dest)) = length (data dest)"
  unfolding run_schedule_def
  by (induction sched arbitrary: dest) (simp_all add: do_store_length)

lemma run_schedule_frame:
  "run_schedule sched dest = dest\<lparr>data := data (run_schedule sched dest)\<rparr>"
  unfolding run_schedule_def
proof (induction sched arbitrary: dest)
  case Nil
  show ?case by simp
next
  case (Cons s sched)
  show ?case
    using Cons [of "do_store s dest"] do_store_frame [of s dest]
    by (metis Image.surjective Image.update_convs(1) fold_simps(2))
qed

lemma do_store_nth:
  assumes "store_ok src alg s" "i < length (data dest)"
  shows "data (do_store s dest) ! i =
    (if store_at src i s
     then getPixelValue src (col_of src i) (row_of src i) (chan_of src i) alg
     else data dest ! i)"
proof -
  obtain ta row pix c where s: "s = (ta, row, pix, c)" by (cases s)
  have ok: "srcImage ta = src" "algorithm ta = alg" "0 \<le> row" "0 \<le> pix" "pix < width src"
    "0 \<le> c" "c < bpp src"
    using assms(1) by (simp_all add: store_ok_def s)
  have base: "0 \<le> row * width (srcImage ta) + pix" using ok by simp
  have "int i div bpp src = row * width src + pix \<longleftrightarrow>
      int i div bpp src div width src = row \<and> int i div bpp src mod width src = pix"
    using ok(4,5) by (rule pos_eq_iff)
  then have "int i div bpp src = row * width src + pix \<and> int i mod bpp src = c
      \<longleftrightarrow> store_at src i s"
    by (auto simp: store_at_def s row_of_def col_of_def chan_of_def)
  then show ?thesis
    using store_pixel_nth [of i dest c ta row pix] assms(2) ok base
    by (auto simp: s store_at_def)
qed

lemma run_schedule_nth:
  assumes "\<forall>s\<in>set sched. store_ok src alg s" "i < length (data dest)"
  shows "data (run_schedule sched dest) ! i =
    (if \<exists>s\<in>set sched. store_at src i s
     then getPixelValue src (col_of src i) (row_of src i) (chan_of src i) alg
     else data dest ! i)"
  using assms
proof (induction sched arbitrary: dest)
  case Nil
  show ?case by (simp add: run_schedule_def)
next
  case (Cons s sched)
  let ?v = "getPixelValue src (col_of src i) (row_of src i) (chan_of src i) alg"
  have ok: "store_ok src alg s" and rest: "\<forall>s\<in>set sched. store_ok src alg s"
    using Cons.prems(1) by simp_all
  have len: "i < length (data (do_store s dest))"
    using Cons.prems(2) by (simp add: do_store_length)
  have "data (run_schedule (s # sched) dest) ! i =
      data (run_schedule sched (do_store s dest)) ! i"
    by (simp add: run_schedule_def)
  also have "\<dots> = (if \<exists>s\<in>set sched. store_at src i s then ?v
      else data (do_store s dest) ! i)"
    by (rule Cons.IH [OF rest len])
  also have "\<dots> = (if \<exists>s\<in>set sched. store_at src i s then ?v
      else if store_at src i s then ?v else data dest ! i)"
    by (simp only: do_store_nth [OF ok Cons.prems(2)])
  also have "\<dots> = (if store_at src i s \<or> (\<exists>s\<in>set sched. store_at src i s) then ?v
      else data dest ! i)"
    by (rule if_twice)
  finally show ?case by simp
qed

lemma run_schedule_set:
  assumes "set sched = set sched'" "\<forall>s\<in>set sched. store_ok src alg s"
  shows "run_schedule sched dest = run_schedule sched' dest"
proof -
  have ok': "\<forall>s\<in>set sched'. store_ok src alg s" using assms by simp
  have "data (run_schedule sched dest) = data (run_schedule sched' dest)"
  proof (rule nth_equalityI)
    show "length (data (run_schedule sched dest)) = length (data (run_schedule sched' dest))"
      by (simp add: run_schedule_length)
    fix i
    assume "i < length (data (run_schedule sched dest))"
    then have i: "i < length (data dest)" by (simp add: run_schedule_length)
    show "data (run_schedule sched dest) ! i = data (run_schedule sched' dest) ! i"
      by (simp only: run_schedule_nth [OF assms(2) i] run_schedule_nth [OF ok' i] assms(1))
  qed
  then show ?thesis
    using run_schedule_frame [of sched dest] run_schedule_frame [of sched' dest] by simp
qed

lemma run_workers_schedule:
  "run_workers (\<lambda>i. True) k tas dest = run_schedule (concat (map worker_steps tas)) dest"
proof (induction tas arbitrary: k dest)
  case Nil
  show ?case by (simp add: run_schedule_def)
next
  case (Cons ta tas)
  show ?case
    by (simp add: Cons pthread_create_def thread_convolute_stores run_schedule_append
        worker_steps_def)
qed

lemma worker_steps_ok:
  assumes "srcImage ta = src" "algorithm ta = alg" "0 \<le> start_row ta"
  shows "\<forall>s\<in>set (worker_steps ta). store_ok src alg s"
  using assms by (auto simp: worker_steps_def worker_stores_def store_ok_def)

lemma args_steps_ok:
  assumes "0 \<le> height src" "0 < n"
  shows "\<forall>s\<in>set (concat (map worker_steps (args n src alg))). store_ok src alg s"
proof
  fix s
  assume "s \<in> set (concat (map worker_steps (args n src alg)))"
  then obtain ta where ta: "ta \<in> set (args n src alg)" "s \<in> set (worker_steps ta)" by auto
  have "srcImage ta = src \<and> algorithm ta = alg \<and> 0 \<le> start_row ta"
    using ta(1) assms unfolding args_bands [OF assms] by (auto simp: band_start_nonneg)
  then show "store_ok src alg s" using worker_steps_ok ta(2) by blast
qed

lemma every_schedule:
  assumes "0 \<le> height src" "0 < n"
    and "interleaving (map worker_steps (args n src alg)) sched"
  shows "run_schedule sched dest = convolute_n n src dest alg"
proof -
  let ?seq = "concat (map worker_steps (args n src alg))"
  have "set ?seq = set sched" using interleaving_set [OF assms(3)] by simp
  then have "run_schedule ?seq dest = run_schedule sched dest"
    using args_steps_ok [OF assms(1,2)] by (rule run_schedule_set)
  then show ?thesis
    by (simp add: convolute_n_def convolute_started_def run_workers_schedule)
qed

text \<open>A schedule of two workers in which the second worker stores first.\<close>

lemma args_1x2:
  "args 2 \<lparr>data = [10, 20], width = 1, height = 2, bpp = 1\<rparr> alg =
    [\<lparr>srcImage = \<lparr>data = [10, 20], width = 1, height = 2, bpp = 1\<rparr>, algorithm = alg,
      start_row = 0, end_row = 1\<rparr>,
     \<lparr>srcImage = \<lparr>data = [10, 20], width = 1, height = 2, bpp = 1\<rparr>, algorithm = alg,
      start_row = 1, end_row = 2\<rparr>]"
proof -
  let ?s = "\<lparr>data = [10, 20], width = 1, height = 2, bpp = 1\<rparr>"
  have h: "0 \<le> height ?s" by simp
  have n: "(0::int) < 2" by simp
  have "[0..2 - 1] = [0, (1::int)]" by (simp add: upto.simps)
  then show ?thesis
    unfolding args_bands [OF h n] by (simp add: band_start_def)
qed

lemma interleaving_swap: "interleaving ([a] # [b] # []) [b, a]"
proof -
  have "interleaving ([] # [] # []) ([] :: 'a list)" by (rule interleaving.finished) simp
  then have "interleaving ([a] # [] # []) [a]"
    using interleaving.step [of 0 "[a] # [] # []" a "[]" "[]"] by simp
  then show ?thesis
    using interleaving.step [of 1 "[a] # [b] # []" b "[]" "[a]"] by simp
qed

lemma schedule_1x2:
  "interleaving
     (map worker_steps (args 2 \<lparr>data = [10, 20], width = 1, height = 2, bpp = 1\<rparr> alg))
     [(\<lparr>srcImage = \<lparr>data = [10, 20], width = 1, height = 2, bpp = 1\<rparr>, algorithm = alg,
        start_row = 1, end_row = 2\<rparr>, 1, 0, 0),
      (\<lparr>srcImage = \<lparr>data = [10, 20], width = 1, height = 2, bpp = 1\<rparr>, algorithm = alg,
        start_row = 0, end_row = 1\<rparr>, 0, 0, 0)]"
  unfolding args_1x2
  by (simp add: worker_steps_def worker_stores_def upto.simps interleaving_swap)

section \<open>The claims\<close>

subsection \<open>C1: pixel convolution with edge replication\<close>



subsection \<open>C2: the result does not depend on the number of workers\<close>

text \<open>
  C2. For every source raster, every kernel and every worker count \<open>n \<ge> 1\<close> (also
  \<open>n\<close> above the height), the engine run on a destination buffer of the size of the
  source returns the same raster as the engine with a single worker; so does the code's
  engine with its four workers; the bytes are those of the direct pixel-by-pixel
  definition; and every interleaving of the stores of the \<open>n\<close> workers leaves that same
  raster.
\<close>

theorem worker_count_invariance:
  assumes "raster src" "length (data dest) = length (data src)" "1 \<le> n"
  shows "convolute_n n src dest alg = convolute_n 1 src dest alg
    \<and> convolute src dest alg = convolute_n 1 src dest alg
    \<and> data (convolute_n n src dest alg) = convolve_direct src alg
    \<and> (\<forall>sched. interleaving (map worker_steps (args n src alg)) sched \<longrightarrow>
          run_schedule sched dest = convolute_n 1 src dest alg)"
proof -
  have dims: "0 < width src" "0 < bpp src" "0 \<le> height src"
    and len: "int (length (data dest)) = width src * height src * bpp src"
    using assms(1,2) by (simp_all add: raster_def)
  have n: "0 < n" using assms(3) by simp
  have any: "convolute_n m src dest alg = dest\<lparr>data := convolve_direct src alg\<rparr>"
    if "0 < m" for m
    using convolute_n_frame [of m src dest alg] convolute_n_direct [OF dims that len, of alg]
    by simp
  have eq: "convolute_n n src dest alg = convolute_n 1 src dest alg"
    using any [OF n] any [of 1] by simp
  have four: "convolute src dest alg = convolute_n 1 src dest alg"
    using any [of 4] any [of 1] by (simp add: convolute_def)
  have direct: "data (convolute_n n src dest alg) = convolve_direct src alg"
    using dims n len by (rule convolute_n_direct)
  have sched: "run_schedule sched dest = convolute_n 1 src dest alg"
    if "interleaving (map worker_steps (args n src alg)) sched" for sched
    using every_schedule [OF dims(3) n that, of dest] eq by simp
  show ?thesis using eq four direct sched by blast
qed

theorem worker_count_invariance_witness:
  "raster \<lparr>data = [10, 20], width = 1, height = 2, bpp = 1\<rparr>
   \<and> length (data \<lparr>data = [0, 0], width = 1, height = 2, bpp = 1\<rparr>) =
       length (data \<lparr>data = [10, 20], width = 1, height = 2, bpp = 1\<rparr>)
   \<and> (1::int) \<le> 2
   \<and> interleaving
        (map worker_steps
          (args 2 \<lparr>data = [10, 20], width = 1, height = 2, bpp = 1\<rparr> (algorithms EDGE)))
        [(\<lparr>srcImage = \<lparr>data = [10, 20], width = 1, height = 2, bpp = 1\<rparr>,
           algorithm = algorithms EDGE, start_row = 1, end_row = 2\<rparr>, 1, 0, 0),
         (\<lparr>srcImage = \<lparr>data = [10, 20], width = 1, height = 2, bpp = 1\<rparr>,
           algorithm = algorithms EDGE, start_row = 0, end_row = 1\<rparr>, 0, 0, 0)]
   \<and> run_schedule
        [(\<lparr>srcImage = \<lparr>data = [10, 20], width = 1, height = 2, bpp = 1\<rparr>,
           algorithm = algorithms EDGE, start_row = 1, end_row = 2\<rparr>, 1, 0, 0),
         (\<lparr>srcImage = \<lparr>data = [10, 20], width = 1, height = 2, bpp = 1\<rparr>,
           algorithm = algorithms EDGE, start_row = 0, end_row = 1\<rparr>, 0, 0, 0)]
        \<lparr>data = [0, 0], width = 1, height = 2, bpp = 1\<rparr>
       = convolute_n 1 \<lparr>data = [10, 20], width = 1, height = 2, bpp = 1\<rparr>
          \<lparr>data = [0, 0], width = 1, height = 2, bpp = 1\<rparr> (algorithms EDGE)
   \<and> convolute_n 2 \<lparr>data = [10, 20], width = 1, height = 2, bpp = 1\<rparr>
        \<lparr>data = [0, 0], width = 1, height = 2, bpp = 1\<rparr> (algorithms EDGE)
       = convolute_n 1 \<lparr>data = [10, 20], width = 1, height = 2, bpp = 1\<rparr>
          \<lparr>data = [0, 0], width = 1, height = 2, bpp = 1\<rparr> (algorithms EDGE)"
proof -
  let ?s = "\<lparr>data = [10, 20], width = 1, height = 2, bpp = 1\<rparr>"
  let ?d = "\<lparr>data = [0, 0], width = 1, height = 2, bpp = 1\<rparr>"
  have r: "raster ?s" by (simp add: raster_def)
  have l: "length (data ?d) = length (data ?s)" by simp
  have n: "(1::int) \<le> 2" by simp
  note i = schedule_1x2 [of "algorithms EDGE"]
  show ?thesis
    using worker_count_invariance [OF r l n, of "algorithms EDGE"] r l n i by blast
qed

subsection \<open>C3: the partition into bands\<close>

text \<open>
  C3. For every height \<open>h \<ge> 0\<close> and worker count \<open>n \<ge> 1\<close>, with \<open>base = h / n\<close> and
  \<open>extra = h % n\<close>: there are \<open>n\<close> bands; band \<open>i\<close> has \<open>base + 1\<close> rows if \<open>i < extra\<close> and
  \<open>base\<close> rows otherwise; the first band starts at row 0, each band starts where the one
  before it ends, and the last ends at \<open>h\<close>; a row belongs to some band exactly when
  it lies in \<open>[0, h)\<close>, and to at most one band. For \<open>h = 10\<close> and \<open>n = 3\<close> the bands are
  \<open>[0,4)\<close>, \<open>[4,7)\<close>, \<open>[7,10)\<close>.
\<close>

theorem band_partition:
  assumes "0 \<le> height src" "1 \<le> n"
  shows "length (args n src alg) = nat n
    \<and> (\<forall>i<nat n. end_row (args n src alg ! i) - start_row (args n src alg ! i) =
          c_div (height src) n + (if int i < c_mod (height src) n then 1 else 0))
    \<and> start_row (args n src alg ! 0) = 0
    \<and> (\<forall>i. Suc i < nat n \<longrightarrow>
          start_row (args n src alg ! Suc i) = end_row (args n src alg ! i))
    \<and> end_row (args n src alg ! (nat n - 1)) = height src
    \<and> (\<forall>y. (\<exists>i<nat n. start_row (args n src alg ! i) \<le> y \<and> y < end_row (args n src alg ! i))
          \<longleftrightarrow> 0 \<le> y \<and> y < height src)
    \<and> (\<forall>i j y. i < nat n \<and> j < nat n
          \<and> start_row (args n src alg ! i) \<le> y \<and> y < end_row (args n src alg ! i)
          \<and> start_row (args n src alg ! j) \<le> y \<and> y < end_row (args n src alg ! j)
          \<longrightarrow> i = j)
    \<and> (height src = 10 \<and> n = 3 \<longrightarrow>
          map (\<lambda>ta. (start_row ta, end_row ta)) (args n src alg) = [(0, 4), (4, 7), (7, 10)])"
proof -
  let ?h = "height src"
  let ?a = "args n src alg"
  have h: "0 \<le> ?h" and n: "0 < n" using assms by simp_all
  note nth = args_nth [OF h n, of _ alg]
  have c1: "length ?a = nat n" using h n by (rule args_length)
  have c2: "\<forall>i<nat n. end_row (?a ! i) - start_row (?a ! i) =
          c_div ?h n + (if int i < c_mod ?h n then 1 else 0)"
    using h n by (simp add: nth band_start_step band_size_def c_div_nonneg c_mod_nonneg)
  have c3: "start_row (?a ! 0) = 0"
    using n nth [of 0] by (simp add: band_start_0)
  have c4: "\<forall>i. Suc i < nat n \<longrightarrow> start_row (?a ! Suc i) = end_row (?a ! i)"
    by (simp add: nth add.commute)
  have "int (nat n - 1) + 1 = n" using n by simp
  moreover have "nat n - 1 < nat n" using n by simp
  ultimately have c5: "end_row (?a ! (nat n - 1)) = ?h"
    using n by (simp add: nth band_start_total)
  have c6: "\<forall>y. (\<exists>i<nat n. start_row (?a ! i) \<le> y \<and> y < end_row (?a ! i))
          \<longleftrightarrow> 0 \<le> y \<and> y < ?h"
  proof (intro allI)
    fix y
    have "(\<exists>i<nat n. start_row (?a ! i) \<le> y \<and> y < end_row (?a ! i)) \<longleftrightarrow>
        (\<exists>i<nat n. band_start ?h n (int i) \<le> y \<and> y < band_start ?h n (int i + 1))"
      by (simp add: nth cong: conj_cong)
    also have "\<dots> \<longleftrightarrow> (\<exists>k. 0 \<le> k \<and> k < n \<and> band_start ?h n k \<le> y \<and> y < band_start ?h n (k + 1))"
      (is "?L \<longleftrightarrow> ?R")
    proof
      assume ?L
      then obtain i where "i < nat n" "band_start ?h n (int i) \<le> y"
        "y < band_start ?h n (int i + 1)" by blast
      then show ?R by (intro exI [of _ "int i"]) simp
    next
      assume ?R
      then obtain k where "0 \<le> k" "k < n" "band_start ?h n k \<le> y"
        "y < band_start ?h n (k + 1)" by blast
      then show ?L by (intro exI [of _ "nat k"]) simp
    qed
    also have "\<dots> \<longleftrightarrow> 0 \<le> y \<and> y < ?h" using h n by (rule band_of_row)
    finally show "(\<exists>i<nat n. start_row (?a ! i) \<le> y \<and> y < end_row (?a ! i))
          \<longleftrightarrow> 0 \<le> y \<and> y < ?h" .
  qed
  have c7: "\<forall>i j y. i < nat n \<and> j < nat n
          \<and> start_row (?a ! i) \<le> y \<and> y < end_row (?a ! i)
          \<and> start_row (?a ! j) \<le> y \<and> y < end_row (?a ! j) \<longrightarrow> i = j"
  proof (intro allI impI)
    fix i j y
    assume a: "i < nat n \<and> j < nat n
          \<and> start_row (?a ! i) \<le> y \<and> y < end_row (?a ! i)
          \<and> start_row (?a ! j) \<le> y \<and> y < end_row (?a ! j)"
    then have b: "band_start ?h n (int i) \<le> y" "y < band_start ?h n (int i + 1)"
      "band_start ?h n (int j) \<le> y" "y < band_start ?h n (int j + 1)"
      using nth [of i] nth [of j] by simp_all
    have "int i = int j"
      using h n b by (rule band_start_disjoint)
    then show "i = j" by simp
  qed
  have c8: "?h = 10 \<and> n = 3 \<longrightarrow>
      map (\<lambda>ta. (start_row ta, end_row ta)) ?a = [(0, 4), (4, 7), (7, 10)]"
  proof
    assume a: "?h = 10 \<and> n = 3"
    have "[0..2] = [0, 1, (2::int)]" by (simp add: upto.simps)
    then show "map (\<lambda>ta. (start_row ta, end_row ta)) ?a = [(0, 4), (4, 7), (7, 10)]"
      unfolding args_bands [OF h n] using a by (simp add: band_start_def)
  qed
  show ?thesis using c1 c2 c3 c4 c5 c6 c7 c8 by blast
qed

theorem band_partition_witness:
  "0 \<le> height \<lparr>data = replicate 10 0, width = 1, height = 10, bpp = 1\<rparr>
   \<and> (1::int) \<le> 3
   \<and> map (\<lambda>ta. (start_row ta, end_row ta))
        (args 3 \<lparr>data = replicate 10 0, width = 1, height = 10, bpp = 1\<rparr> (algorithms BLUR))
       = [(0, 4), (4, 7), (7, 10)]
   \<and> length (args 3 \<lparr>data = replicate 10 0, width = 1, height = 10, bpp = 1\<rparr>
        (algorithms BLUR)) = nat 3"
proof -
  have h: "0 \<le> height \<lparr>data = replicate 10 0, width = 1, height = 10, bpp = 1\<rparr>"
    by simp
  have n: "(1::int) \<le> 3" by simp
  have e: "height \<lparr>data = replicate 10 0, width = 1, height = 10, bpp = 1\<rparr> = 10 \<and> (3::int) = 3"
    by simp
  show ?thesis
    using band_partition [OF h n, of "algorithms BLUR"] h n e by blast
qed

subsection \<open>C4: the identity kernel\<close>

text \<open>
  C4. For every source raster, convolving it with the identity kernel (weight 1 at the
  centre, 0 elsewhere) yields a destination whose every byte equals the
  corresponding source byte, for every worker count and for the count 4 of the code.
\<close>

theorem identity_kernel_is_noop:
  assumes "raster src" "length (data dest) = length (data src)" "1 \<le> n"
  shows "data (convolute_n n src dest (algorithms IDENTITY)) = data src
    \<and> data (convolute src dest (algorithms IDENTITY)) = data src"
proof -
  have dims: "0 < width src" "0 < bpp src" "0 \<le> height src"
    and len: "int (length (data dest)) = width src * height src * bpp src"
    using assms(1,2) by (simp_all add: raster_def)
  have "data (convolute_n m src dest (algorithms IDENTITY)) = data src" if "0 < m" for m
    using convolute_n_direct [OF dims that len, of "algorithms IDENTITY"]
      convolve_direct_identity [OF assms(1)] by simp
  from this [of n] this [of 4] show ?thesis using assms(3) by (simp add: convolute_def)
qed

theorem identity_kernel_is_noop_witness:
  "raster raster_3x3
   \<and> length (data (raster_3x3\<lparr>data := replicate 9 0\<rparr>)) = length (data raster_3x3)
   \<and> (1::int) \<le> 2
   \<and> data (convolute_n 2 raster_3x3 (raster_3x3\<lparr>data := replicate 9 0\<rparr>) (algorithms IDENTITY))
       = data raster_3x3
   \<and> data (convolute raster_3x3 (raster_3x3\<lparr>data := replicate 9 0\<rparr>) (algorithms IDENTITY))
       = data raster_3x3"
proof -
  have r: "raster raster_3x3" by (simp add: raster_def raster_3x3_def)
  have l: "length (data (raster_3x3\<lparr>data := replicate 9 0\<rparr>)) = length (data raster_3x3)"
    by (simp add: raster_3x3_def)
  have n: "(1::int) \<le> 2" by simp
  show ?thesis
    using identity_kernel_is_noop [OF r l n] r l n by blast
qed

subsection \<open>C5: the edge kernel at the centre of the 3 by 3 raster\<close>

text \<open>
  C5. For the 3 by 3 single-channel raster with the rows \<open>0 0 0\<close>, \<open>0 255 0\<close>, \<open>0 0 0\<close>
  and the edge kernel, the sum accumulated at the centre pixel \<open>(1, 1)\<close> is \<open>4 * 255 - 0 * 4 = 1020\<close>,
  and the byte that \<^verbatim>\<open>getPixelValue\<close> returns is that sum narrowed into 8 bits without
  clamping: \<open>1020 mod 256 = 252\<close>.
\<close>

theorem edge_centre_pixel_wraps:
  "getPixelSum raster_3x3 1 1 0 (algorithms EDGE) = 4 * 255 - 0 * 4
   \<and> getPixelSum raster_3x3 1 1 0 (algorithms EDGE) = 1020
   \<and> getPixelValue raster_3x3 1 1 0 (algorithms EDGE) = word_of_int (1020 mod 256)
   \<and> getPixelValue raster_3x3 1 1 0 (algorithms EDGE) = 252"
  by (simp add: getPixelValue_def pixel_sum_3x3 u8_of_double_def c_trunc_numeral
      del: algorithms.simps)

subsection \<open>C6: the kernel lookup\<close>

text \<open>
  C6 as stated fails: the identifier \<open>gaussian-blur\<close> is not one that \<^verbatim>\<open>GetKernelType\<close>
  knows, so it resolves to the identity kernel and not to the Gaussian matrix.
\<close>

theorem gaussian_blur_name_counterexample:
  "algorithms (GetKernelType ''gaussian-blur'') \<noteq>
    ((1 / 16, 1 / 8, 1 / 16), (1 / 8, 1 / 4, 1 / 8), (1 / 16, 1 / 8, 1 / 16))"
  by (simp add: GetKernelType_def)

text \<open>
  C6, amended. The lookup maps the identifiers \<open>edge\<close>, \<open>sharpen\<close>, \<open>blur\<close>, \<open>gauss\<close>,
  \<open>emboss\<close> and \<open>identity\<close> to their matrices (the blur weight is the double nearest to
  \<open>1/9\<close>), and every identifier other than the first five resolves to the identity
  kernel.
\<close>

theorem kernel_lookup:
  "algorithms (GetKernelType ''edge'') = ((0, - 1, 0), (- 1, 4, - 1), (0, - 1, 0))
  \<and> algorithms (GetKernelType ''sharpen'') = ((0, - 1, 0), (- 1, 5, - 1), (0, - 1, 0))
  \<and> algorithms (GetKernelType ''blur'') =
      ((to_double (1 / 9), to_double (1 / 9), to_double (1 / 9)),
       (to_double (1 / 9), to_double (1 / 9), to_double (1 / 9)),
       (to_double (1 / 9), to_double (1 / 9), to_double (1 / 9)))
  \<and> algorithms (GetKernelType ''gauss'') =
      ((1 / 16, 1 / 8, 1 / 16), (1 / 8, 1 / 4, 1 / 8), (1 / 16, 1 / 8, 1 / 16))
  \<and> algorithms (GetKernelType ''emboss'') = ((- 2, - 1, 0), (- 1, 1, 1), (0, 1, 2))
  \<and> algorithms (GetKernelType ''identity'') = ((0, 0, 0), (0, 1, 0), (0, 0, 0))
  \<and> (t \<notin> {''edge'', ''sharpen'', ''blur'', ''gauss'', ''emboss''} \<longrightarrow>
       algorithms (GetKernelType t) = ((0, 0, 0), (0, 1, 0), (0, 0, 0)))"
proof -
  have "algorithms (GetKernelType ''gauss'') =
      ((1 / 16, 1 / 8, 1 / 16), (1 / 8, 1 / 4, 1 / 8), (1 / 16, 1 / 8, 1 / 16))"
    by (simp add: GetKernelType_def gauss_weights)
  moreover have "algorithms (GetKernelType ''blur'') =
      ((to_double (1 / 9), to_double (1 / 9), to_double (1 / 9)),
       (to_double (1 / 9), to_double (1 / 9), to_double (1 / 9)),
       (to_double (1 / 9), to_double (1 / 9), to_double (1 / 9)))"
    by (simp add: GetKernelType_def double_div_def)
  ultimately show ?thesis
    by (simp add: GetKernelType_def)
qed

theorem kernel_lookup_witness:
  "''sobel'' \<notin> {''edge'', ''sharpen'', ''blur'', ''gauss'', ''emboss''}
   \<and> algorithms (GetKernelType ''sobel'') = ((0, 0, 0), (0, 1, 0), (0, 0, 0))"
  using kernel_lookup [of "''sobel''"] by simp

subsection \<open>C7: a worker that fails to start\<close>




subsection \<open>C8: fewer rows than workers\<close>

text \<open>
  C8. When \<open>0 \<le> height < n\<close>, every band that the engine generates satisfies
  \<open>0 \<le> start_row \<le> end_row \<le> height\<close>, every row of a band lies in \<open>[0, height)\<close>, and a
  worker whose band is empty returns the destination as it received it. Some band is
  empty. The quotient and the remainder computed by the loop are 0 and the height, so
  no value of the loop leaves the range from 0 to the height.
\<close>

theorem bands_when_height_below_workers:
  assumes "0 \<le> height src" "height src < n"
  shows "(\<forall>ta\<in>set (args n src alg).
          0 \<le> start_row ta \<and> start_row ta \<le> end_row ta \<and> end_row ta \<le> height src
          \<and> (\<forall>row. start_row ta \<le> row \<and> row < end_row ta \<longrightarrow> 0 \<le> row \<and> row < height src)
          \<and> (end_row ta = start_row ta \<longrightarrow> thread_convolute ta dest = dest))
    \<and> (\<exists>ta\<in>set (args n src alg). end_row ta = start_row ta)
    \<and> c_div (height src) n = 0 \<and> c_mod (height src) n = height src"
proof -
  let ?h = "height src"
  have h: "0 \<le> ?h" and n: "0 < n" using assms by simp_all
  let ?band = "\<lambda>k. \<lparr>srcImage = src, algorithm = alg,
               start_row = band_start ?h n k, end_row = band_start ?h n (k + 1)\<rparr>"
  have a: "args n src alg = map ?band [0..n - 1]" using h n by (rule args_bands)
  have each: "0 \<le> start_row ta \<and> start_row ta \<le> end_row ta \<and> end_row ta \<le> ?h
          \<and> (\<forall>row. start_row ta \<le> row \<and> row < end_row ta \<longrightarrow> 0 \<le> row \<and> row < ?h)
          \<and> (end_row ta = start_row ta \<longrightarrow> thread_convolute ta dest = dest)"
    if mem: "ta \<in> set (args n src alg)" for ta
  proof -
    obtain k where k: "0 \<le> k" "k \<le> n - 1" "ta = ?band k"
      using mem unfolding a by auto
    have s: "0 \<le> band_start ?h n k" using h n k by (simp add: band_start_nonneg)
    have m: "band_start ?h n k \<le> band_start ?h n (k + 1)"
      using h n by (intro band_start_mono) simp_all
    have e: "band_start ?h n (k + 1) \<le> ?h" using h n k by (simp add: band_start_le_height)
    show ?thesis using s m e k(3) by (auto simp: thread_convolute_empty)
  qed
  have "n - 1 \<in> set [0..n - 1]" using n by simp
  then have last: "?band (n - 1) \<in> set (args n src alg)"
    unfolding a set_map by (rule imageI)
  have "?h div n = 0" "?h mod n = ?h" using assms by simp_all
  then have "band_start ?h n (n - 1) = ?h" "band_start ?h n (n - 1 + 1) = ?h"
    using assms by (simp_all add: band_start_def)
  then have empty: "end_row (?band (n - 1)) = start_row (?band (n - 1))" by simp
  have "c_div ?h n = 0" "c_mod ?h n = ?h"
    using assms by (simp_all add: c_div_nonneg c_mod_nonneg)
  then show ?thesis using each last empty by blast
qed

theorem bands_when_height_below_workers_witness:
  "0 \<le> height raster_3x3 \<and> height raster_3x3 < 4
   \<and> \<lparr>srcImage = raster_3x3, algorithm = algorithms EDGE, start_row = 3, end_row = 3\<rparr>
        \<in> set (args 4 raster_3x3 (algorithms EDGE))
   \<and> thread_convolute
        \<lparr>srcImage = raster_3x3, algorithm = algorithms EDGE, start_row = 3, end_row = 3\<rparr>
        raster_3x3 = raster_3x3
   \<and> c_div (height raster_3x3) 4 = 0 \<and> c_mod (height raster_3x3) 4 = height raster_3x3"
proof -
  let ?ta = "\<lparr>srcImage = raster_3x3, algorithm = algorithms EDGE, start_row = 3, end_row = 3\<rparr>"
  have h: "0 \<le> height raster_3x3" "height raster_3x3 < 4" by (simp_all add: raster_3x3_def)
  have n: "(0::int) < 4" by simp
  have b: "band_start (height raster_3x3) 4 3 = 3" "band_start (height raster_3x3) 4 (3 + 1) = 3"
    by (simp_all add: band_start_def raster_3x3_def)
  have "(3::int) \<in> set [0..4 - 1]" by simp
  then have "\<lparr>srcImage = raster_3x3, algorithm = algorithms EDGE,
        start_row = band_start (height raster_3x3) 4 3,
        end_row = band_start (height raster_3x3) 4 (3 + 1)\<rparr>
      \<in> set (args 4 raster_3x3 (algorithms EDGE))"
    unfolding args_bands [OF h(1) n] set_map by (rule imageI)
  then have mem: "?ta \<in> set (args 4 raster_3x3 (algorithms EDGE))"
    by (simp only: b)
  have e: "end_row ?ta = start_row ?ta" by simp
  show ?thesis
    using bands_when_height_below_workers [OF h, of "algorithms EDGE" raster_3x3] h mem e
    by blast
qed

subsection \<open>C9: the blur kernel on a uniform raster\<close>

text \<open>
  C9 as stated fails in its general part: a uniform raster is not a fixed point of
  every kernel whose weights sum to 1. With the blur kernel and two workers, the 4 by 4
  raster of bytes 7 becomes the raster of bytes 6: the nine rounded products add up to
  a double just below 7, and the narrowing discards the fraction. The same happens with
  the kernel \<open>normalised_blur\<close>, whose nine weights sum to 1 exactly.
\<close>

theorem blur_uniform_7_counterexample:
  "convolute_n 2 (uniform_4x4 7) (uniform_4x4 0) (algorithms BLUR) = uniform_4x4 6
   \<and> uniform_4x4 6 \<noteq> uniform_4x4 7
   \<and> sum_list (map fst (kernel_positions normalised_blur)) = 1
   \<and> convolute_n 2 (uniform_4x4 7) (uniform_4x4 0) normalised_blur = uniform_4x4 6"
proof -
  have d: "width (uniform_4x4 0) = 4" "height (uniform_4x4 0) = 4" "bpp (uniform_4x4 0) = 1"
    "length (data (uniform_4x4 0)) = 16" "(0::int) < 2"
    by (simp_all add: uniform_4x4_def)
  have "convolute_n 2 (uniform_4x4 7) (uniform_4x4 0) (algorithms BLUR) =
      uniform_4x4 (u8_of_double (uniform_sum (algorithms BLUR) 7))"
    using d by (rule convolute_n_uniform_4x4)
  then have a: "convolute_n 2 (uniform_4x4 7) (uniform_4x4 0) (algorithms BLUR) = uniform_4x4 6"
    by (simp only: blur_7)
  have "convolute_n 2 (uniform_4x4 7) (uniform_4x4 0) normalised_blur =
      uniform_4x4 (u8_of_double (uniform_sum normalised_blur 7))"
    using d by (rule convolute_n_uniform_4x4)
  then have b: "convolute_n 2 (uniform_4x4 7) (uniform_4x4 0) normalised_blur = uniform_4x4 6"
    by (simp only: normalised_blur_7)
  have c: "uniform_4x4 6 \<noteq> uniform_4x4 7" by (simp add: uniform_4x4_def)
  show ?thesis using a b c normalised_blur_total by blast
qed

text \<open>
  C9, amended. The 4 by 4 single-channel raster whose every byte is 100, convolved with
  the blur kernel by two workers into a 4 by 4 single-channel destination, yields the
  raster whose every byte is 100. The same convolution of the raster whose every byte
  is 7 yields the raster whose every byte is 6.
\<close>

theorem blur_uniform_100:
  assumes "width dest = 4" "height dest = 4" "bpp dest = 1" "length (data dest) = 16"
  shows "convolute_n 2 (uniform_4x4 100) dest (algorithms BLUR) = uniform_4x4 100
    \<and> convolute_n 2 (uniform_4x4 7) dest (algorithms BLUR) = uniform_4x4 6"
proof -
  have "convolute_n 2 (uniform_4x4 v) dest (algorithms BLUR) =
      uniform_4x4 (u8_of_double (uniform_sum (algorithms BLUR) v))" for v
    using assms by (rule convolute_n_uniform_4x4) simp
  from this [of 100] this [of 7] show ?thesis by (simp only: blur_100 blur_7)
qed

theorem blur_uniform_100_witness:
  "width (uniform_4x4 0) = 4 \<and> height (uniform_4x4 0) = 4 \<and> bpp (uniform_4x4 0) = 1
   \<and> length (data (uniform_4x4 0)) = 16
   \<and> convolute_n 2 (uniform_4x4 100) (uniform_4x4 0) (algorithms BLUR) = uniform_4x4 100
   \<and> convolute_n 2 (uniform_4x4 7) (uniform_4x4 0) (algorithms BLUR) = uniform_4x4 6"
proof -
  have h: "width (uniform_4x4 0) = 4" "height (uniform_4x4 0) = 4" "bpp (uniform_4x4 0) = 1"
    "length (data (uniform_4x4 0)) = 16"
    by (simp_all add: uniform_4x4_def)
  show ?thesis using blur_uniform_100 [OF h] h by blast
qed

subsection \<open>C10: channels do not interfere\<close>

text \<open>
  C10. For two source rasters of the same shape that agree on every byte of channel
  \<open>c\<close>, and for every offset of channel \<open>c\<close>, \<^verbatim>\<open>getPixelValue\<close> returns the same byte on
  both rasters and the engine produces the same destination byte, whatever the other
  channels and the previous contents of the destination buffers are.
\<close>

theorem channel_noninterference:
  assumes "raster src1" "raster src2"
    and "width src1 = width src2" "height src1 = height src2" "bpp src1 = bpp src2"
    and "\<forall>i<length (data src1). chan_of src1 i = c \<longrightarrow> data src1 ! i = data src2 ! i"
    and "length (data dest1) = length (data src1)" "length (data dest2) = length (data src1)"
    and "1 \<le> n"
  shows "\<forall>i<length (data src1). chan_of src1 i = c \<longrightarrow>
     getPixelValue src1 (col_of src1 i) (row_of src1 i) c k =
       getPixelValue src2 (col_of src1 i) (row_of src1 i) c k
     \<and> data (convolute_n n src1 dest1 k) ! i = data (convolute_n n src2 dest2 k) ! i"
proof (intro allI impI)
  fix i
  assume i: "i < length (data src1)" and c: "chan_of src1 i = c"
  have n: "0 < n" using assms(9) by simp
  have d1: "0 < width src1" "0 < bpp src1" "0 \<le> height src1"
    and l1: "int (length (data dest1)) = width src1 * height src1 * bpp src1"
    using assms(1,7) by (simp_all add: raster_def)
  have d2: "0 < width src2" "0 < bpp src2" "0 \<le> height src2"
    and l2: "int (length (data dest2)) = width src2 * height src2 * bpp src2"
    using assms(1-5,8) by (simp_all add: raster_def)
  have same: "col_of src2 i = col_of src1 i" "row_of src2 i = row_of src1 i"
    "chan_of src2 i = c"
    using assms(3,5) c by (simp_all add: col_of_def row_of_def chan_of_def)
  have r: "0 \<le> col_of src1 i" "col_of src1 i < width src1" "0 \<le> row_of src1 i"
    "row_of src1 i < height src1" "0 \<le> c" "c < bpp src1"
    using offset_in_raster [OF assms(1) i] c by simp_all
  have px: "getPixelValue src1 (col_of src1 i) (row_of src1 i) c k =
       getPixelValue src2 (col_of src1 i) (row_of src1 i) c k"
    using assms(1-6) r by (rule getPixelValue_agree)
  have "data (convolute_n n src1 dest1 k) ! i =
      getPixelValue src1 (col_of src1 i) (row_of src1 i) c k"
    using i c assms(7) by (simp add: convolute_n_direct [OF d1 n l1] convolve_direct_def l1 [symmetric])
  moreover have "data (convolute_n n src2 dest2 k) ! i =
      getPixelValue src2 (col_of src1 i) (row_of src1 i) c k"
    using i same assms(8) by (simp add: convolute_n_direct [OF d2 n l2] convolve_direct_def l2 [symmetric])
  ultimately show "getPixelValue src1 (col_of src1 i) (row_of src1 i) c k =
       getPixelValue src2 (col_of src1 i) (row_of src1 i) c k
     \<and> data (convolute_n n src1 dest1 k) ! i = data (convolute_n n src2 dest2 k) ! i"
    using px by simp
qed

theorem channel_noninterference_witness:
  "raster \<lparr>data = [1, 2, 3, 4], width = 2, height = 1, bpp = 2\<rparr>
   \<and> raster \<lparr>data = [1, 9, 3, 7], width = 2, height = 1, bpp = 2\<rparr>
   \<and> chan_of \<lparr>data = [1, 2, 3, 4], width = 2, height = 1, bpp = 2\<rparr> 2 = 0
   \<and> data (convolute_n 2 \<lparr>data = [1, 2, 3, 4], width = 2, height = 1, bpp = 2\<rparr>
         \<lparr>data = [0, 0, 0, 0], width = 2, height = 1, bpp = 2\<rparr> (algorithms SHARPEN)) ! 2 =
       data (convolute_n 2 \<lparr>data = [1, 9, 3, 7], width = 2, height = 1, bpp = 2\<rparr>
         \<lparr>data = [5, 5, 5, 5], width = 2, height = 1, bpp = 2\<rparr> (algorithms SHARPEN)) ! 2"
proof -
  let ?s1 = "\<lparr>data = [1, 2, 3, 4], width = 2, height = 1, bpp = 2\<rparr>"
  let ?s2 = "\<lparr>data = [1, 9, 3, 7], width = 2, height = 1, bpp = 2\<rparr>"
  let ?d1 = "\<lparr>data = [0, 0, 0, 0], width = 2, height = 1, bpp = 2\<rparr>"
  let ?d2 = "\<lparr>data = [5, 5, 5, 5], width = 2, height = 1, bpp = 2\<rparr>"
  have r1: "raster ?s1" and r2: "raster ?s2" by (simp_all add: raster_def)
  have four: "i = 0 \<or> i = 1 \<or> i = 2 \<or> i = 3" if "i < 4" for i :: nat
    using that by arith
  have agree: "\<forall>i<length (data ?s1). chan_of ?s1 i = 0 \<longrightarrow> data ?s1 ! i = data ?s2 ! i"
  proof (intro allI impI)
    fix i
    assume "i < length (data ?s1)" and c: "chan_of ?s1 i = 0"
    then have "i = 0 \<or> i = 1 \<or> i = 2 \<or> i = 3" using four by simp
    then show "data ?s1 ! i = data ?s2 ! i" using c by (auto simp: chan_of_def)
  qed
  have c2: "(2::nat) < length (data ?s1)" "chan_of ?s1 2 = 0" by (simp_all add: chan_of_def)
  have "data (convolute_n 2 ?s1 ?d1 (algorithms SHARPEN)) ! 2 =
      data (convolute_n 2 ?s2 ?d2 (algorithms SHARPEN)) ! 2"
    using channel_noninterference [OF r1 r2 _ _ _ agree, of ?d1 ?d2 2 "algorithms SHARPEN"] c2
    by simp
  then show ?thesis using r1 r2 c2(2) by blast
qed

end
